theory Spec2Isabelle
  imports Main "HOL-Library.Word"
begin

unbundle bit_operations_syntax

section \<open>Data model of main.go\<close>

text \<open>
  Go's \<^verbatim>\<open>int\<close> is modelled as a 64-bit word (the size it has on 64-bit platforms):
  \<open>+\<close> wraps, \<open>sint\<close> reads the signed value and \<open><s\<close> is the signed comparison.
  A Go \<^verbatim>\<open>string\<close> is a sequence of bytes, here a \<open>string\<close> (a list of 8-bit characters).
\<close>

type_synonym go_int = "64 word"
type_synonym byte = "8 word"
type_synonym uint32 = "32 word"

record Transaction =
  Sender :: string
  Recipient :: string
  Amount :: go_int

record Block =
  Index :: go_int
  Timestamp :: "64 word"
  Transactions :: Transaction
  Proof :: go_int
  PreviousHash :: string

text \<open>
  \<^verbatim>\<open>FullChain\<close>, the body of a peer's \<^verbatim>\<open>GET /chain\<close> answer. Its fields are
  \<^verbatim>\<open>Chain\<close> and \<^verbatim>\<open>Length\<close> in the source; the first is written \<open>PeerChain\<close> here, as the
  ledger's own field keeps the name \<open>Chain\<close>.
\<close>

record FullChain =
  PeerChain :: "Block list"
  Length :: go_int

record BlockChain =
  Chain :: "Block list"
  CurrentTransaction :: Transaction
  Nodes :: "string list"

text \<open>The zero value \<^verbatim>\<open>Transaction{}\<close>.\<close>

definition Transaction_zero :: Transaction where
  "Transaction_zero = \<lparr>Sender = [], Recipient = [], Amount = 0\<rparr>"

text \<open>The zero value \<^verbatim>\<open>BlockChain{}\<close>: nil slices and the zero transaction.\<close>

definition BlockChain_zero :: BlockChain where
  "BlockChain_zero = \<lparr>Chain = [], CurrentTransaction = Transaction_zero, Nodes = []\<rparr>"

text \<open>
  The ways the program panics: an index out of range (a runtime error), and the explicit
  \<^verbatim>\<open>panic(err)\<close> calls after \<^verbatim>\<open>json.Marshal\<close>, \<^verbatim>\<open>http.Get\<close>, the status test and the decoder.
\<close>

datatype error = IndexOutOfRange | MarshalError | GetError | BadStatus | DecodeError

text \<open>
  The ledger is the package variable \<^verbatim>\<open>blockchain\<close>. A method that touches it takes the
  ledger and returns the ledger it leaves behind, next to its result or its panic.
\<close>

type_synonym 'a outcome = "(error + 'a) \<times> BlockChain"

section \<open>The library functions the ledger calls\<close>

subsection \<open>strconv.Itoa\<close>

definition digit_char :: "nat \<Rightarrow> char" where
  "digit_char n = ''0123456789abcdef'' ! n"

text \<open>The decimal digits of a number that is not negative.\<close>

function decimal :: "int \<Rightarrow> string" where
  "decimal n =
     (if n < 10 then [digit_char (nat n)]
      else decimal (n div 10) @ [digit_char (nat (n mod 10))])"
  by pat_completeness auto
termination
  by (relation "measure nat") auto

declare decimal.simps [simp del]

definition FormatInt :: "int \<Rightarrow> string" where
  "FormatInt i = (if i < 0 then CHR ''-'' # decimal (- i) else decimal i)"

definition Itoa :: "go_int \<Rightarrow> string" where
  "Itoa i = FormatInt (sint i)"

text \<open>The conversion \<^verbatim>\<open>[]byte(s)\<close>.\<close>

definition bytes_of :: "string \<Rightarrow> byte list" where
  "bytes_of s = map of_char s"

subsection \<open>hex.EncodeToString\<close>

definition EncodeToString :: "byte list \<Rightarrow> string" where
  "EncodeToString bs =
     concat (map (\<lambda>b. [digit_char (unat (drop_bit 4 b)), digit_char (unat (b AND 0x0f))]) bs)"

subsection \<open>sha256.Sum256\<close>

text \<open>SHA-256 as FIPS 180-4 defines it, which \<^verbatim>\<open>crypto/sha256\<close> implements.\<close>

definition K256 :: "uint32 list" where
  "K256 = [
   0x428A2F98, 0x71374491, 0xB5C0FBCF, 0xE9B5DBA5, 0x3956C25B, 0x59F111F1, 0x923F82A4, 0xAB1C5ED5,
   0xD807AA98, 0x12835B01, 0x243185BE, 0x550C7DC3, 0x72BE5D74, 0x80DEB1FE, 0x9BDC06A7, 0xC19BF174,
   0xE49B69C1, 0xEFBE4786, 0x0FC19DC6, 0x240CA1CC, 0x2DE92C6F, 0x4A7484AA, 0x5CB0A9DC, 0x76F988DA,
   0x983E5152, 0xA831C66D, 0xB00327C8, 0xBF597FC7, 0xC6E00BF3, 0xD5A79147, 0x06CA6351, 0x14292967,
   0x27B70A85, 0x2E1B2138, 0x4D2C6DFC, 0x53380D13, 0x650A7354, 0x766A0ABB, 0x81C2C92E, 0x92722C85,
   0xA2BFE8A1, 0xA81A664B, 0xC24B8B70, 0xC76C51A3, 0xD192E819, 0xD6990624, 0xF40E3585, 0x106AA070,
   0x19A4C116, 0x1E376C08, 0x2748774C, 0x34B0BCB5, 0x391C0CB3, 0x4ED8AA4A, 0x5B9CCA4F, 0x682E6FF3,
   0x748F82EE, 0x78A5636F, 0x84C87814, 0x8CC70208, 0x90BEFFFA, 0xA4506CEB, 0xBEF9A3F7, 0xC67178F2]"

definition rotr :: "nat \<Rightarrow> uint32 \<Rightarrow> uint32" where
  "rotr n x = drop_bit n x OR push_bit (32 - n) x"

definition Ch :: "uint32 \<Rightarrow> uint32 \<Rightarrow> uint32 \<Rightarrow> uint32" where
  "Ch x y z = (x AND y) XOR (NOT x AND z)"

definition Maj :: "uint32 \<Rightarrow> uint32 \<Rightarrow> uint32 \<Rightarrow> uint32" where
  "Maj x y z = (x AND y) XOR (x AND z) XOR (y AND z)"

definition bsig0 :: "uint32 \<Rightarrow> uint32" where
  "bsig0 x = rotr 2 x XOR rotr 13 x XOR rotr 22 x"

definition bsig1 :: "uint32 \<Rightarrow> uint32" where
  "bsig1 x = rotr 6 x XOR rotr 11 x XOR rotr 25 x"

definition ssig0 :: "uint32 \<Rightarrow> uint32" where
  "ssig0 x = rotr 7 x XOR rotr 18 x XOR drop_bit 3 x"

definition ssig1 :: "uint32 \<Rightarrow> uint32" where
  "ssig1 x = rotr 17 x XOR rotr 19 x XOR drop_bit 10 x"

text \<open>The 16 big-endian words of a 64-byte chunk.\<close>

fun be32 :: "byte list \<Rightarrow> uint32 list" where
  "be32 (a # b # c # d # bs) =
     (push_bit 24 (ucast a) OR push_bit 16 (ucast b) OR push_bit 8 (ucast c) OR ucast d) # be32 bs"
| "be32 _ = []"

text \<open>The message schedule: \<open>schedule 48\<close> extends the 16 words of a chunk to 64.\<close>

fun schedule :: "nat \<Rightarrow> uint32 list \<Rightarrow> uint32 list" where
  "schedule 0 w = w"
| "schedule (Suc n) w =
     schedule n (w @ [ssig1 (w ! (length w - 2)) + w ! (length w - 7)
                      + ssig0 (w ! (length w - 15)) + w ! (length w - 16)])"

type_synonym hstate =
  "uint32 \<times> uint32 \<times> uint32 \<times> uint32 \<times> uint32 \<times> uint32 \<times> uint32 \<times> uint32"

fun round256 :: "hstate \<Rightarrow> uint32 \<times> uint32 \<Rightarrow> hstate" where
  "round256 (a, b, c, d, e, f, g, h) (k, w) =
     (let t1 = h + bsig1 e + Ch e f g + k + w;
          t2 = bsig0 a + Maj a b c
      in (t1 + t2, a, b, c, d + t1, e, f, g))"

fun addstate :: "hstate \<Rightarrow> hstate \<Rightarrow> hstate" where
  "addstate (a, b, c, d, e, f, g, h) (a', b', c', d', e', f', g', h') =
     (a + a', b + b', c + c', d + d', e + e', f + f', g + g', h + h')"

definition block256 :: "hstate \<Rightarrow> byte list \<Rightarrow> hstate" where
  "block256 H chunk = addstate H (foldl round256 H (zip K256 (schedule 48 (be32 chunk))))"

fun blocks256 :: "nat \<Rightarrow> hstate \<Rightarrow> byte list \<Rightarrow> hstate" where
  "blocks256 0 H bs = H"
| "blocks256 (Suc n) H bs = blocks256 n (block256 H (take 64 bs)) (drop 64 bs)"

definition be_bytes32 :: "uint32 \<Rightarrow> byte list" where
  "be_bytes32 x = [ucast (drop_bit 24 x), ucast (drop_bit 16 x), ucast (drop_bit 8 x), ucast x]"

definition be_bytes64 :: "64 word \<Rightarrow> byte list" where
  "be_bytes64 x = map (\<lambda>i. ucast (drop_bit (8 * (7 - i)) x)) [0..<8]"

text \<open>Padding: the byte 0x80, zero bytes up to 56 modulo 64, and the length in bits.\<close>

definition pad256 :: "byte list \<Rightarrow> byte list" where
  "pad256 bs = bs @ [0x80] @ replicate ((119 - length bs mod 64) mod 64) 0
                  @ be_bytes64 (of_nat (8 * length bs))"

definition init256 :: hstate where
  "init256 = (0x6A09E667, 0xBB67AE85, 0x3C6EF372, 0xA54FF53A,
              0x510E527F, 0x9B05688C, 0x1F83D9AB, 0x5BE0CD19)"

fun digest_bytes :: "hstate \<Rightarrow> byte list" where
  "digest_bytes (a, b, c, d, e, f, g, h) = concat (map be_bytes32 [a, b, c, d, e, f, g, h])"

definition Sum256 :: "byte list \<Rightarrow> byte list" where
  "Sum256 bs = (let m = pad256 bs in digest_bytes (blocks256 (length m div 64) init256 m))"

subsection \<open>json.Marshal of a Block\<close>

text \<open>
  \<^verbatim>\<open>encoding/json\<close> writes a struct as an object of its fields in declaration order, under
  the key of the field's tag (the field's name where it has none), an integer in decimal and
  a string quoted, with the escapes below. A byte that does not start a valid UTF-8
  sequence is replaced by U+FFFD. For this struct, of integers and strings only, the encoder
  has no error to return.

  Two details of the string encoder depend on the Go toolchain that builds the program,
  and the repository pins none. They are modelled as the current toolchain has them: the
  bytes 0x08 and 0x0C are written with the short escapes of JSON (Go before 1.22 wrote the
  six-character escapes), and the U+FFFD that replaces an invalid byte is written as its
  three bytes EF BF BD (the encoder before the json/v2 implementation wrote its
  six-character escape). Both encoders write any two invalid bytes alike.
\<close>

definition continuation :: "byte \<Rightarrow> bool" where
  "continuation b = (0x80 \<le> b \<and> b \<le> 0xBF)"

text \<open>
  The size \<^verbatim>\<open>utf8.DecodeRuneInString\<close> returns for a string that starts with a byte of
  0x80 or more, and 0 where it returns \<^verbatim>\<open>(RuneError, 1)\<close>: the encoding is invalid.
\<close>

definition rune_size :: "byte list \<Rightarrow> nat" where
  "rune_size s =
     (case s of
        [] \<Rightarrow> 0
      | b0 # t \<Rightarrow>
          if 0xC2 \<le> b0 \<and> b0 \<le> 0xDF then
            (case t of b1 # _ \<Rightarrow> if continuation b1 then 2 else 0 | _ \<Rightarrow> 0)
          else if 0xE0 \<le> b0 \<and> b0 \<le> 0xEF then
            (case t of
               b1 # b2 # _ \<Rightarrow>
                 if (if b0 = 0xE0 then 0xA0 else 0x80) \<le> b1
                    \<and> b1 \<le> (if b0 = 0xED then 0x9F else 0xBF) \<and> continuation b2
                 then 3 else 0
             | _ \<Rightarrow> 0)
          else if 0xF0 \<le> b0 \<and> b0 \<le> 0xF4 then
            (case t of
               b1 # b2 # b3 # _ \<Rightarrow>
                 if (if b0 = 0xF0 then 0x90 else 0x80) \<le> b1
                    \<and> b1 \<le> (if b0 = 0xF4 then 0x8F else 0xBF)
                    \<and> continuation b2 \<and> continuation b3
                 then 4 else 0
             | _ \<Rightarrow> 0)
          else 0)"

text \<open>
  The escape of one byte below 0x80 that is not written as it is: the quote, the backslash,
  the control characters, and \<^verbatim>\<open><\<close>, \<^verbatim>\<open>>\<close>, \<^verbatim>\<open>&\<close> (Marshal escapes HTML).
\<close>

definition escape_ascii :: "byte \<Rightarrow> byte list" where
  "escape_ascii b =
     (if b = 0x22 \<or> b = 0x5C then [0x5C, b]
      else if b = 0x0A then [0x5C, 0x6E]
      else if b = 0x0D then [0x5C, 0x72]
      else if b = 0x09 then [0x5C, 0x74]
      else if b = 0x08 then [0x5C, 0x62]
      else if b = 0x0C then [0x5C, 0x66]
      else if b < 0x20 \<or> b = 0x3C \<or> b = 0x3E \<or> b = 0x26 then
        [0x5C, 0x75, 0x30, 0x30,
         of_char (digit_char (unat (drop_bit 4 b))), of_char (digit_char (unat (b AND 0x0f)))]
      else [b])"

function encode_chars :: "byte list \<Rightarrow> byte list" where
  "encode_chars [] = []"
| "encode_chars (b # bs) =
     (if b < 0x80 then escape_ascii b @ encode_chars bs
      else if rune_size (b # bs) = 0 then
        [0xEF, 0xBF, 0xBD] @ encode_chars bs
      else if take 3 (b # bs) = [0xE2, 0x80, 0xA8] then
        0x5C # bytes_of ''u2028'' @ encode_chars (drop 2 bs)
      else if take 3 (b # bs) = [0xE2, 0x80, 0xA9] then
        0x5C # bytes_of ''u2029'' @ encode_chars (drop 2 bs)
      else take (rune_size (b # bs)) (b # bs) @ encode_chars (drop (rune_size (b # bs) - 1) bs))"
  by pat_completeness auto
termination
  by (relation "measure length") auto

definition json_string :: "string \<Rightarrow> byte list" where
  "json_string s = [0x22] @ encode_chars (bytes_of s) @ [0x22]"

definition json_int :: "int \<Rightarrow> byte list" where
  "json_int i = bytes_of (FormatInt i)"

definition json_key :: "string \<Rightarrow> byte list" where
  "json_key k = [0x22] @ bytes_of k @ [0x22, 0x3A]"

definition Marshal_Transaction :: "Transaction \<Rightarrow> byte list" where
  "Marshal_Transaction t =
     bytes_of ''{'' @ json_key ''Sender'' @ json_string (Sender t)
     @ bytes_of '','' @ json_key ''Recipient'' @ json_string (Recipient t)
     @ bytes_of '','' @ json_key ''Amount'' @ json_int (sint (Amount t))
     @ bytes_of ''}''"

definition Marshal :: "Block \<Rightarrow> error + byte list" where
  "Marshal block =
     Inr (bytes_of ''{'' @ json_key ''index'' @ json_int (sint (Index block))
          @ bytes_of '','' @ json_key ''timestamp'' @ json_int (sint (Timestamp block))
          @ bytes_of '','' @ json_key ''transactions'' @ Marshal_Transaction (Transactions block)
          @ bytes_of '','' @ json_key ''proof'' @ json_int (sint (Proof block))
          @ bytes_of '','' @ json_key ''previous_hash'' @ json_string (PreviousHash block)
          @ bytes_of ''}'')"

subsection \<open>Strings of valid UTF-8\<close>







section \<open>The ledger\<close>

subsection \<open>Hash\<close>

definition Hash :: "Block \<Rightarrow> error + string" where
  "Hash block =
     (case Marshal block of
        Inl err \<Rightarrow> Inl err
      | Inr blockJson \<Rightarrow> Inr (EncodeToString (Sum256 blockJson)))"

subsection \<open>validProof and ProofOfWork\<close>

definition validProof :: "go_int \<Rightarrow> go_int \<Rightarrow> bool" where
  "validProof lastProof proof =
     (let guess = bytes_of (Itoa lastProof @ Itoa proof);
          sha256s = Sum256 guess;
          guessHash = EncodeToString sha256s
      in take 4 guessHash = ''0000'')"

text \<open>
  The loop of \<^verbatim>\<open>ProofOfWork\<close> has no bound: it is a partial function, \<open>None\<close> when the
  search never ends. \<^verbatim>\<open>proof++\<close> wraps at the end of the range of \<^verbatim>\<open>int\<close>.
\<close>

partial_function (option) ProofOfWork_loop :: "go_int \<Rightarrow> go_int \<Rightarrow> go_int option" where
  "ProofOfWork_loop lastProof proof =
     (if validProof lastProof proof = False then ProofOfWork_loop lastProof (proof + 1)
      else Some proof)"

definition ProofOfWork :: "go_int \<Rightarrow> go_int option" where
  "ProofOfWork lastProof = ProofOfWork_loop lastProof 0"

subsection \<open>validChain\<close>

function validChain_loop :: "Block list \<Rightarrow> Block \<Rightarrow> nat \<Rightarrow> error + bool" where
  "validChain_loop chain lastBlock currentIndex =
     (if currentIndex < length chain then
        (let block = chain ! currentIndex in
         case Hash lastBlock of
           Inl err \<Rightarrow> Inl err
         | Inr h \<Rightarrow>
             if PreviousHash block \<noteq> h then Inr False
             else validChain_loop chain block (currentIndex + 1))
      else Inr True)"
  by pat_completeness auto
termination
  by (relation "measure (\<lambda>(chain, lastBlock, currentIndex). length chain - currentIndex)") auto

declare validChain_loop.simps [simp del]

text \<open>\<^verbatim>\<open>chain[0]\<close> is read before the loop: on the empty slice it panics.\<close>

definition validChain :: "Block list \<Rightarrow> error + bool" where
  "validChain chain =
     (if length chain = 0 then Inl IndexOutOfRange
      else validChain_loop chain (chain ! 0) 1)"

subsection \<open>LastBlock, NewTransaction, NewBlock, init\<close>

definition LastBlock :: "BlockChain \<Rightarrow> error + Block" where
  "LastBlock blockchain =
     (if length (Chain blockchain) = 0 then Inl IndexOutOfRange
      else Inr (Chain blockchain ! (length (Chain blockchain) - 1)))"

text \<open>The pending transaction is assigned before \<^verbatim>\<open>LastBlock\<close> is called.\<close>

definition NewTransaction :: "string \<Rightarrow> string \<Rightarrow> go_int \<Rightarrow> BlockChain \<Rightarrow> go_int outcome" where
  "NewTransaction sender recipient amount blockchain =
     (let blockchain' = blockchain\<lparr>CurrentTransaction :=
            \<lparr>Sender = sender, Recipient = recipient, Amount = amount\<rparr>\<rparr>
      in case LastBlock blockchain' of
           Inl err \<Rightarrow> (Inl err, blockchain')
         | Inr b \<Rightarrow> (Inr (Index b + 1), blockchain'))"

text \<open>\<open>now\<close> is what \<^verbatim>\<open>time.Now().Unix()\<close> returns at the call.\<close>

definition NewBlock :: "64 word \<Rightarrow> string \<Rightarrow> go_int \<Rightarrow> BlockChain \<Rightarrow> Block outcome" where
  "NewBlock now PreviousHash' proof blockchain =
     (case (if PreviousHash' \<noteq> [] then Inr PreviousHash'
            else if length (Chain blockchain) = 0 then Inl IndexOutOfRange
            else Hash (Chain blockchain ! (length (Chain blockchain) - 1))) of
        Inl err \<Rightarrow> (Inl err, blockchain)
      | Inr pg \<Rightarrow>
          (let block = \<lparr>Index = of_nat (length (Chain blockchain)) + 1,
                        Timestamp = now,
                        Transactions = CurrentTransaction blockchain,
                        Proof = proof,
                        PreviousHash = pg\<rparr>
           in (Inr block,
               blockchain\<lparr>CurrentTransaction := Transaction_zero,
                          Chain := Chain blockchain @ [block]\<rparr>)))"

text \<open>\<^verbatim>\<open>init\<close> overwrites the ledger, so it takes none.\<close>

definition init :: "64 word \<Rightarrow> unit outcome" where
  "init now =
     (case NewBlock now ''1'' 100 BlockChain_zero of
        (Inl err, blockchain) \<Rightarrow> (Inl err, blockchain)
      | (Inr block, blockchain) \<Rightarrow> (Inr (), blockchain))"

subsection \<open>resolveConflicts\<close>

text \<open>
  What one iteration gets from the network: \<^verbatim>\<open>http.Get\<close> fails, or there is a response
  with its status code and what the decoder makes of its body (\<open>None\<close> when it fails).
\<close>

datatype reply = GetFailed | Response go_int "FullChain option"

fun resolve_loop :: "reply list \<Rightarrow> go_int \<Rightarrow> Block list \<Rightarrow> error + go_int \<times> Block list" where
  "resolve_loop [] maxLength newChain = Inr (maxLength, newChain)"
| "resolve_loop (GetFailed # rest) maxLength newChain = Inl GetError"
| "resolve_loop (Response StatusCode body # rest) maxLength newChain =
     (if StatusCode \<noteq> 200 then Inl BadStatus
      else case body of
        None \<Rightarrow> Inl DecodeError
      | Some fullChain \<Rightarrow>
          (let length' = Length fullChain; chain = PeerChain fullChain in
           if maxLength <s length' then
             (case validChain chain of
                Inl err \<Rightarrow> Inl err
              | Inr valid \<Rightarrow>
                  if valid then resolve_loop rest length' chain
                  else resolve_loop rest maxLength newChain)
           else resolve_loop rest maxLength newChain))"

text \<open>\<open>http_Get\<close> is the network: the reply to a request for a URL.\<close>

definition resolveConflicts :: "(string \<Rightarrow> reply) \<Rightarrow> BlockChain \<Rightarrow> bool outcome" where
  "resolveConflicts http_Get blockchain =
     (case resolve_loop (map (\<lambda>node. http_Get (node @ ''/chain'')) (Nodes blockchain))
             (of_nat (length (Chain blockchain))) [] of
        Inl err \<Rightarrow> (Inl err, blockchain)
      | Inr (maxLength, newChain) \<Rightarrow>
          if length newChain \<noteq> 0 then (Inr True, blockchain\<lparr>Chain := newChain\<rparr>)
          else (Inr False, blockchain))"

section \<open>Sequences of ledger calls\<close>

text \<open>
  A call of one of the two methods that change the ledger between resolutions, and the
  ledger a sequence of calls leaves behind, each call running on what the one before left.
\<close>

datatype call =
  CallNewBlock "64 word" string go_int
| CallNewTransaction string string go_int

fun call_ledger :: "call \<Rightarrow> BlockChain \<Rightarrow> BlockChain" where
  "call_ledger (CallNewBlock now PreviousHash' proof) blockchain =
     snd (NewBlock now PreviousHash' proof blockchain)"
| "call_ledger (CallNewTransaction sender recipient amount) blockchain =
     snd (NewTransaction sender recipient amount blockchain)"

fun calls :: "call list \<Rightarrow> BlockChain \<Rightarrow> BlockChain" where
  "calls [] blockchain = blockchain"
| "calls (c # cs) blockchain = calls cs (call_ledger c blockchain)"

text \<open>
  The call leaves the previous hash to \<^verbatim>\<open>NewBlock\<close>: it passes the empty string, as
  \<^verbatim>\<open>Mine\<close> does.
\<close>

fun derives_hash :: "call \<Rightarrow> bool" where
  "derives_hash (CallNewBlock now PreviousHash' proof) = (PreviousHash' = [])"
| "derives_hash (CallNewTransaction sender recipient amount) = True"

section \<open>Consensus resolution as the specification words it\<close>

text \<open>
  The specification's scan of the peer responses: \<open>best_length\<close> starts at the local
  chain's length and \<open>best_chain\<close> at none; a response whose reported length is strictly
  greater than \<open>best_length\<close> and whose chain passes the validity check becomes the new
  best. If \<open>best_chain\<close> was ever set the local chain is replaced by it and the answer is
  true; otherwise the ledger is untouched and the answer is false.
\<close>

fun spec_scan :: "FullChain list \<Rightarrow> go_int \<Rightarrow> Block list option \<Rightarrow> go_int \<times> Block list option" where
  "spec_scan [] best_length best_chain = (best_length, best_chain)"
| "spec_scan (r # rs) best_length best_chain =
     (if best_length <s Length r \<and> validChain (PeerChain r) = Inr True
      then spec_scan rs (Length r) (Some (PeerChain r))
      else spec_scan rs best_length best_chain)"

text \<open>
  Whether the scan examines an empty chain: one whose reported length is strictly greater
  than the running best length when its turn comes.
\<close>

fun examines_empty :: "FullChain list \<Rightarrow> go_int \<Rightarrow> bool" where
  "examines_empty [] best_length = False"
| "examines_empty (r # rs) best_length =
     (if best_length <s Length r then
        PeerChain r = []
        \<or> examines_empty rs
             (if validChain (PeerChain r) = Inr True then Length r else best_length)
      else examines_empty rs best_length)"

definition spec_resolve :: "FullChain list \<Rightarrow> BlockChain \<Rightarrow> bool \<times> BlockChain" where
  "spec_resolve responses local =
     (case snd (spec_scan responses (of_nat (length (Chain local))) None) of
        None \<Rightarrow> (False, local)
      | Some best_chain \<Rightarrow> (True, local\<lparr>Chain := best_chain\<rparr>))"

section \<open>Sample peers\<close>

text \<open>
  A block a peer may send as its genesis block, a network of two peers that answer with
  status 200 and the given bodies, and the freshly initialized ledger with the two peers
  in its list of nodes.
\<close>

definition peer_block :: Block where
  "peer_block = \<lparr>Index = 1, Timestamp = 7, Transactions = Transaction_zero, Proof = 100,
                  PreviousHash = ''1''\<rparr>"

definition two_peers :: "FullChain \<Rightarrow> FullChain \<Rightarrow> string \<Rightarrow> reply" where
  "two_peers a b url =
     (if url = ''http://a/chain'' then Response 200 (Some a) else Response 200 (Some b))"

definition genesis_node :: BlockChain where
  "genesis_node = (snd (init 0))\<lparr>Nodes := [''http://a'', ''http://b'']\<rparr>"


section \<open>Facts about the library functions\<close>

lemma Hash_total: "\<exists>h. Hash b = Inr h"
  by (simp add: Hash_def Marshal_def)

lemma length_EncodeToString: "length (EncodeToString bs) = 2 * length bs"
  by (induction bs) (simp_all add: EncodeToString_def)

lemma length_digest_bytes: "length (digest_bytes H) = 32"
  by (cases H rule: digest_bytes.cases) (simp add: be_bytes32_def)

lemma length_Sum256: "length (Sum256 bs) = 32"
  by (simp add: Sum256_def Let_def length_digest_bytes)

lemma Hash_length: "Hash b = Inr h \<Longrightarrow> length h = 64"
  by (auto simp: Hash_def Marshal_def length_EncodeToString length_Sum256)

section \<open>The validity check\<close>

lemma validChain_loop_links:
  "0 < ci \<Longrightarrow> ci \<le> length chain \<Longrightarrow>
   validChain_loop chain (chain ! (ci - 1)) ci =
     Inr (\<forall>i. ci \<le> i \<and> i < length chain \<longrightarrow>
            Hash (chain ! (i - 1)) = Inr (PreviousHash (chain ! i)))"
proof (induction "length chain - ci" arbitrary: ci)
  case 0
  then have "ci = length chain" by simp
  then show ?case
    by (subst validChain_loop.simps) auto
next
  case (Suc n)
  then have lt: "ci < length chain" by simp
  obtain h where h: "Hash (chain ! (ci - 1)) = Inr h"
    using Hash_total by blast
  show ?case
  proof (cases "PreviousHash (chain ! ci) = h")
    case False
    then have "\<not> (\<forall>i. ci \<le> i \<and> i < length chain \<longrightarrow>
                 Hash (chain ! (i - 1)) = Inr (PreviousHash (chain ! i)))"
      using lt h by auto
    then show ?thesis
      using lt h False by (subst validChain_loop.simps) simp
  next
    case True
    have step: "validChain_loop chain (chain ! ci) (ci + 1) =
      Inr (\<forall>i. ci + 1 \<le> i \<and> i < length chain \<longrightarrow>
             Hash (chain ! (i - 1)) = Inr (PreviousHash (chain ! i)))"
      using Suc.hyps(1) [of "ci + 1"] Suc.hyps(2) lt by simp
    have "(\<forall>i. ci \<le> i \<and> i < length chain \<longrightarrow>
             Hash (chain ! (i - 1)) = Inr (PreviousHash (chain ! i)))
        = (\<forall>i. ci + 1 \<le> i \<and> i < length chain \<longrightarrow>
             Hash (chain ! (i - 1)) = Inr (PreviousHash (chain ! i)))"
    proof (intro iffI allI impI)
      fix i
      assume all: "\<forall>i. ci + 1 \<le> i \<and> i < length chain \<longrightarrow>
             Hash (chain ! (i - 1)) = Inr (PreviousHash (chain ! i))"
        and i: "ci \<le> i \<and> i < length chain"
      show "Hash (chain ! (i - 1)) = Inr (PreviousHash (chain ! i))"
      proof (cases "i = ci")
        case True
        with h \<open>PreviousHash (chain ! ci) = h\<close> show ?thesis by simp
      next
        case False
        with i have "ci + 1 \<le> i \<and> i < length chain" by simp
        with all show ?thesis by blast
      qed
    qed simp
    then show ?thesis
      using lt h True step by (subst validChain_loop.simps) simp
  qed
qed

lemma validChain_links:
  "chain \<noteq> [] \<Longrightarrow>
   validChain chain =
     Inr (\<forall>i. 0 < i \<and> i < length chain \<longrightarrow>
            Hash (chain ! (i - 1)) = Inr (PreviousHash (chain ! i)))"
  using validChain_loop_links [of 1 chain]
  by (cases chain) (simp_all add: validChain_def Suc_le_eq)

lemma validChain_empty: "validChain [] = Inl IndexOutOfRange"
  by (simp add: validChain_def)

lemma validChain_single: "validChain [b] = Inr True"
  by (simp add: validChain_links)

lemma validChain_True_nonempty: "validChain chain = Inr v \<Longrightarrow> chain \<noteq> []"
  by (auto simp: validChain_def)

lemma validChain_error:
  assumes "validChain chain = Inl e"
  shows "e = IndexOutOfRange \<and> chain = []"
proof (cases "chain = []")
  case True
  then show ?thesis
    using assms by (simp add: validChain_def)
next
  case False
  from validChain_links [OF False] assms show ?thesis
    by simp
qed

section \<open>Facts about the ledger methods and the sample peers\<close>

lemma one_sless [simp]: "(1::go_int) <s 2" "(1::go_int) <s 3" "\<not> (3::go_int) <s 2"
  by (simp_all add: word_sless_alt)

lemma init_ledger:
  "init now = (Inr (), \<lparr>Chain = [\<lparr>Index = 1, Timestamp = now, Transactions = Transaction_zero,
                                    Proof = 100, PreviousHash = ''1''\<rparr>],
                         CurrentTransaction = Transaction_zero, Nodes = []\<rparr>)"
  by (simp add: init_def NewBlock_def BlockChain_zero_def Let_def)

lemma NewBlock_result:
  assumes "Chain blockchain \<noteq> [] \<or> PreviousHash' \<noteq> []"
  shows "\<exists>pg. (if PreviousHash' \<noteq> [] then pg = PreviousHash'
                else Hash (last (Chain blockchain)) = Inr pg)
           \<and> NewBlock now PreviousHash' proof blockchain =
               (Inr \<lparr>Index = of_nat (length (Chain blockchain)) + 1, Timestamp = now,
                     Transactions = CurrentTransaction blockchain, Proof = proof,
                     PreviousHash = pg\<rparr>,
                blockchain\<lparr>CurrentTransaction := Transaction_zero,
                  Chain := Chain blockchain @
                    [\<lparr>Index = of_nat (length (Chain blockchain)) + 1, Timestamp = now,
                      Transactions = CurrentTransaction blockchain, Proof = proof,
                      PreviousHash = pg\<rparr>]\<rparr>)"
proof (cases "PreviousHash' \<noteq> []")
  case True
  then show ?thesis
    by (simp add: NewBlock_def Let_def)
next
  case False
  with assms have ne: "Chain blockchain \<noteq> []" by simp
  obtain h where h: "Hash (Chain blockchain ! (length (Chain blockchain) - 1)) = Inr h"
    using Hash_total by blast
  with False ne show ?thesis
    by (simp add: NewBlock_def Let_def last_conv_nth)
qed

lemma genesis_node_eq:
  "genesis_node = \<lparr>Chain = [\<lparr>Index = 1, Timestamp = 0, Transactions = Transaction_zero,
                                 Proof = 100, PreviousHash = ''1''\<rparr>],
                    CurrentTransaction = Transaction_zero, Nodes = [''http://a'', ''http://b'']\<rparr>"
  by (simp add: genesis_node_def init_ledger)

section \<open>Facts about the resolution loop\<close>

text \<open>How the source's slice and the specification's optional chain correspond.\<close>

lemma resolve_loop_spec_scan:
  assumes "resolve_loop replies maxLength newChain = Inr (maxLength', newChain')"
    and "(best_chain = None \<and> newChain = []) \<or> (best_chain = Some newChain \<and> newChain \<noteq> [])"
  shows "\<exists>responses. replies = map (\<lambda>r. Response 200 (Some r)) responses
           \<and> fst (spec_scan responses maxLength best_chain) = maxLength'
           \<and> ((snd (spec_scan responses maxLength best_chain) = None \<and> newChain' = [])
              \<or> (snd (spec_scan responses maxLength best_chain) = Some newChain' \<and> newChain' \<noteq> []))"
  using assms
proof (induction replies maxLength newChain arbitrary: best_chain rule: resolve_loop.induct)
  case (1 maxLength newChain)
  then show ?case by auto
next
  case (2 rest maxLength newChain)
  then show ?case by simp
next
  case (3 StatusCode body rest maxLength newChain)
  from "3.prems"(1) have ok: "StatusCode = 200"
    by (auto split: if_splits)
  from "3.prems"(1) ok obtain fullChain where body: "body = Some fullChain"
    by (cases body) auto
  show ?case
  proof (cases "maxLength <s Length fullChain")
    case False
    with "3.prems" ok body
    have "resolve_loop rest maxLength newChain = Inr (maxLength', newChain')"
      by simp
    from "3.IH"(3) [OF _ body refl refl False this "3.prems"(2)] ok
    obtain responses where r: "rest = map (\<lambda>r. Response 200 (Some r)) responses"
      "fst (spec_scan responses maxLength best_chain) = maxLength'"
      "(snd (spec_scan responses maxLength best_chain) = None \<and> newChain' = [])
        \<or> (snd (spec_scan responses maxLength best_chain) = Some newChain' \<and> newChain' \<noteq> [])"
      by auto
    show ?thesis
      using r ok body False
      by (intro exI [of _ "fullChain # responses"]) simp
  next
    case True
    from "3.prems"(1) ok body True obtain valid where
      valid: "validChain (PeerChain fullChain) = Inr valid"
      by (cases "validChain (PeerChain fullChain)") auto
    show ?thesis
    proof (cases valid)
      case True
      note v = this
      with "3.prems"(1) ok body valid \<open>maxLength <s Length fullChain\<close>
      have run: "resolve_loop rest (Length fullChain) (PeerChain fullChain) = Inr (maxLength', newChain')"
        by simp
      have ne: "PeerChain fullChain \<noteq> []"
        using valid validChain_True_nonempty by blast
      from "3.IH"(1) [OF _ body refl refl \<open>maxLength <s Length fullChain\<close> valid v run,
          of "Some (PeerChain fullChain)"] ok ne
      obtain responses where r: "rest = map (\<lambda>r. Response 200 (Some r)) responses"
        "fst (spec_scan responses (Length fullChain) (Some (PeerChain fullChain))) = maxLength'"
        "(snd (spec_scan responses (Length fullChain) (Some (PeerChain fullChain))) = None \<and> newChain' = [])
          \<or> (snd (spec_scan responses (Length fullChain) (Some (PeerChain fullChain))) = Some newChain'
              \<and> newChain' \<noteq> [])"
        by auto
      show ?thesis
        using r ok body valid v \<open>maxLength <s Length fullChain\<close>
        by (intro exI [of _ "fullChain # responses"]) simp
    next
      case False
      note v = this
      with "3.prems"(1) ok body valid \<open>maxLength <s Length fullChain\<close>
      have run: "resolve_loop rest maxLength newChain = Inr (maxLength', newChain')"
        by simp
      from "3.IH"(2) [OF _ body refl refl \<open>maxLength <s Length fullChain\<close> valid v run "3.prems"(2)] ok
      obtain responses where r: "rest = map (\<lambda>r. Response 200 (Some r)) responses"
        "fst (spec_scan responses maxLength best_chain) = maxLength'"
        "(snd (spec_scan responses maxLength best_chain) = None \<and> newChain' = [])
          \<or> (snd (spec_scan responses maxLength best_chain) = Some newChain' \<and> newChain' \<noteq> [])"
        by auto
      show ?thesis
        using r ok body valid v \<open>maxLength <s Length fullChain\<close>
        by (intro exI [of _ "fullChain # responses"]) simp
    qed
  qed
qed

lemma spec_scan_adopted:
  assumes "snd (spec_scan responses best_length best_chain) = Some c"
  shows "best_chain = Some c
         \<or> (\<exists>r \<in> set responses. best_length <s Length r \<and> validChain (PeerChain r) = Inr True
                \<and> c = PeerChain r)"
  using assms
proof (induction responses arbitrary: best_length best_chain)
  case Nil
  then show ?case by simp
next
  case (Cons r rs)
  show ?case
  proof (cases "best_length <s Length r \<and> validChain (PeerChain r) = Inr True")
    case True
    with Cons.prems have "snd (spec_scan rs (Length r) (Some (PeerChain r))) = Some c"
      by simp
    from Cons.IH [OF this] show ?thesis
    proof
      assume "Some (PeerChain r) = Some c"
      with True show ?thesis by auto
    next
      assume "\<exists>r' \<in> set rs. Length r <s Length r' \<and> validChain (PeerChain r') = Inr True
                \<and> c = PeerChain r'"
      then obtain r' where "r' \<in> set rs" "Length r <s Length r'"
        "validChain (PeerChain r') = Inr True" "c = PeerChain r'"
        by blast
      moreover from True \<open>Length r <s Length r'\<close> have "best_length <s Length r'"
        by (simp add: word_sless_alt)
      ultimately show ?thesis by auto
    qed
  next
    case False
    with Cons.prems have "snd (spec_scan rs best_length best_chain) = Some c"
      by auto
    from Cons.IH [OF this] show ?thesis by auto
  qed
qed

lemma resolve_loop_error:
  assumes "resolve_loop replies maxLength newChain = Inl e"
    and "\<forall>reply \<in> set replies. \<exists>r. reply = Response 200 (Some r)"
  shows "e = IndexOutOfRange"
  using assms
proof (induction replies maxLength newChain rule: resolve_loop.induct)
  case (1 maxLength newChain)
  then show ?case by simp
next
  case (2 rest maxLength newChain)
  then show ?case by simp
next
  case (3 StatusCode body rest maxLength newChain)
  from "3.prems"(2) obtain r where r: "StatusCode = 200" "body = Some r"
    by auto
  from "3.prems"(2) have rest: "\<forall>reply \<in> set rest. \<exists>r. reply = Response 200 (Some r)"
    by simp
  show ?case
  proof (cases "maxLength <s Length r")
    case False
    with "3.prems"(1) r have "resolve_loop rest maxLength newChain = Inl e" by simp
    from "3.IH"(3) [OF _ r(2) refl refl False this rest] r show ?thesis by simp
  next
    case True
    show ?thesis
    proof (cases "validChain (PeerChain r)")
      case (Inl e')
      with "3.prems"(1) r True have "e = e'" by simp
      with Inl validChain_error show ?thesis by blast
    next
      case (Inr valid)
      show ?thesis
      proof (cases valid)
        case True
        with "3.prems"(1) r Inr \<open>maxLength <s Length r\<close>
        have "resolve_loop rest (Length r) (PeerChain r) = Inl e" by simp
        from "3.IH"(1) [OF _ r(2) refl refl \<open>maxLength <s Length r\<close> Inr True this rest] r
        show ?thesis by simp
      next
        case False
        with "3.prems"(1) r Inr \<open>maxLength <s Length r\<close>
        have "resolve_loop rest maxLength newChain = Inl e" by simp
        from "3.IH"(2) [OF _ r(2) refl refl \<open>maxLength <s Length r\<close> Inr False this rest] r
        show ?thesis by simp
      qed
    qed
  qed
qed

lemma resolve_loop_bound:
  assumes "resolve_loop replies maxLength newChain = Inr (maxLength', newChain')"
    and "maxLength <s bound"
    and "\<forall>reply \<in> set replies. \<exists>r. reply = Response 200 (Some r) \<and> Length r <s bound"
  shows "maxLength' <s bound"
  using assms
proof (induction replies maxLength newChain rule: resolve_loop.induct)
  case (1 maxLength newChain)
  then show ?case by simp
next
  case (2 rest maxLength newChain)
  then show ?case by simp
next
  case (3 StatusCode body rest maxLength newChain)
  from "3.prems"(3) obtain r where r: "StatusCode = 200" "body = Some r" "Length r <s bound"
    by auto
  from "3.prems"(3) have rest:
    "\<forall>reply \<in> set rest. \<exists>r. reply = Response 200 (Some r) \<and> Length r <s bound"
    by simp
  show ?case
  proof (cases "maxLength <s Length r")
    case False
    with "3.prems"(1) r have "resolve_loop rest maxLength newChain = Inr (maxLength', newChain')"
      by simp
    from "3.IH"(3) [OF _ r(2) refl refl False this "3.prems"(2) rest] r show ?thesis by simp
  next
    case True
    from "3.prems"(1) r True obtain valid where valid: "validChain (PeerChain r) = Inr valid"
      by (cases "validChain (PeerChain r)") auto
    show ?thesis
    proof (cases valid)
      case True
      with "3.prems"(1) r valid \<open>maxLength <s Length r\<close>
      have "resolve_loop rest (Length r) (PeerChain r) = Inr (maxLength', newChain')" by simp
      from "3.IH"(1) [OF _ r(2) refl refl \<open>maxLength <s Length r\<close> valid True this r(3) rest] r
      show ?thesis by simp
    next
      case False
      with "3.prems"(1) r valid \<open>maxLength <s Length r\<close>
      have "resolve_loop rest maxLength newChain = Inr (maxLength', newChain')" by simp
      from "3.IH"(2) [OF _ r(2) refl refl \<open>maxLength <s Length r\<close> valid False this "3.prems"(2) rest] r
      show ?thesis by simp
    qed
  qed
qed

lemma resolve_loop_append:
  "resolve_loop (before @ after) maxLength newChain =
     (case resolve_loop before maxLength newChain of
        Inl e \<Rightarrow> Inl e
      | Inr (maxLength', newChain') \<Rightarrow> resolve_loop after maxLength' newChain')"
  by (induction before maxLength newChain rule: resolve_loop.induct)
     (auto simp: Let_def split: option.splits sum.splits)

lemma resolve_loop_empty_chain:
  "maxLength <s reported \<Longrightarrow>
   resolve_loop (Response 200 (Some \<lparr>PeerChain = [], Length = reported\<rparr>) # rest) maxLength newChain
     = Inl IndexOutOfRange"
  by (simp add: validChain_def)

text \<open>The loop on replies that all decode, and on replies that do not.\<close>

lemma validChain_nonempty_Inr:
  assumes "chain \<noteq> []"
  shows "\<exists>v. validChain chain = Inr v"
  using validChain_links [OF assms] by blast

lemma resolve_loop_decoded:
  assumes "case best_chain of None \<Rightarrow> newChain = [] | Some c \<Rightarrow> newChain = c \<and> c \<noteq> []"
  shows "resolve_loop (map (\<lambda>r. Response 200 (Some r)) responses) maxLength newChain =
           (if examines_empty responses maxLength then Inl IndexOutOfRange
            else Inr (fst (spec_scan responses maxLength best_chain),
                      case snd (spec_scan responses maxLength best_chain) of
                        None \<Rightarrow> [] | Some c \<Rightarrow> c))
         \<and> (case snd (spec_scan responses maxLength best_chain) of
               None \<Rightarrow> True | Some c \<Rightarrow> c \<noteq> [])"
  using assms
proof (induction responses arbitrary: maxLength newChain best_chain)
  case Nil
  then show ?case
    by (auto split: option.splits)
next
  case (Cons r rs)
  show ?case
  proof (cases "maxLength <s Length r")
    case False
    with Cons.IH [OF Cons.prems, of maxLength] show ?thesis
      by (simp add: Let_def)
  next
    case True
    show ?thesis
    proof (cases "PeerChain r = []")
      case True
      with \<open>maxLength <s Length r\<close> Cons.IH [OF Cons.prems, of maxLength] show ?thesis
        by (simp add: validChain_empty Let_def)
    next
      case False
      then obtain v where v: "validChain (PeerChain r) = Inr v"
        using validChain_nonempty_Inr by blast
      show ?thesis
      proof (cases v)
        case True
        have "case Some (PeerChain r) of None \<Rightarrow> PeerChain r = []
              | Some c \<Rightarrow> PeerChain r = c \<and> c \<noteq> []"
          using False by simp
        from Cons.IH [OF this, of "Length r"] v True False \<open>maxLength <s Length r\<close>
        show ?thesis
          by (simp add: Let_def)
      next
        case False
        with Cons.IH [OF Cons.prems, of maxLength] v \<open>PeerChain r \<noteq> []\<close>
          \<open>maxLength <s Length r\<close>
        show ?thesis
          by (simp add: Let_def)
      qed
    qed
  qed
qed

lemma resolve_loop_undecoded:
  assumes "\<not> (\<exists>responses. replies = map (\<lambda>r. Response 200 (Some r)) responses)"
  shows "\<exists>e. resolve_loop replies maxLength newChain = Inl e"
proof (cases "resolve_loop replies maxLength newChain")
  case (Inl e)
  then show ?thesis by blast
next
  case (Inr best)
  obtain maxLength' newChain' where "best = (maxLength', newChain')"
    by (cases best)
  with Inr resolve_loop_spec_scan [of replies maxLength "[]" maxLength' newChain' None]
    resolve_loop_spec_scan [of replies maxLength newChain maxLength' newChain' "Some newChain"]
  have "\<exists>responses. replies = map (\<lambda>r. Response 200 (Some r)) responses"
    by (cases "newChain = []") auto
  with assms show ?thesis by blast
qed

lemma spec_scan_tie:
  assumes "\<forall>r \<in> set responses. \<not> best_length <s Length r"
  shows "spec_scan responses best_length best_chain = (best_length, best_chain)
         \<and> \<not> examines_empty responses best_length"
  using assms by (induction responses) auto

section \<open>Facts about chains grown by ledger calls\<close>

lemma validChain_pair: "validChain [a, b] = Inr (Hash a = Inr (PreviousHash b))"
proof -
  have "(\<forall>i. 0 < i \<and> i < length [a, b] \<longrightarrow>
          Hash ([a, b] ! (i - 1)) = Inr (PreviousHash ([a, b] ! i)))
        = (Hash a = Inr (PreviousHash b))"
  proof
    assume "\<forall>i. 0 < i \<and> i < length [a, b] \<longrightarrow>
          Hash ([a, b] ! (i - 1)) = Inr (PreviousHash ([a, b] ! i))"
    from this [rule_format, of 1] show "Hash a = Inr (PreviousHash b)"
      by simp
  next
    assume "Hash a = Inr (PreviousHash b)"
    then show "\<forall>i. 0 < i \<and> i < length [a, b] \<longrightarrow>
          Hash ([a, b] ! (i - 1)) = Inr (PreviousHash ([a, b] ! i))"
      by (auto simp: less_Suc_eq)
  qed
  then show ?thesis
    by (simp add: validChain_links)
qed

lemma links_append:
  assumes "chain \<noteq> []"
    and "\<forall>i. 0 < i \<and> i < length chain \<longrightarrow> Hash (chain ! (i - 1)) = Inr (PreviousHash (chain ! i))"
    and "Hash (last chain) = Inr (PreviousHash block)"
  shows "\<forall>i. 0 < i \<and> i < length (chain @ [block]) \<longrightarrow>
           Hash ((chain @ [block]) ! (i - 1)) = Inr (PreviousHash ((chain @ [block]) ! i))"
proof (intro allI impI)
  fix i
  assume i: "0 < i \<and> i < length (chain @ [block])"
  show "Hash ((chain @ [block]) ! (i - 1)) = Inr (PreviousHash ((chain @ [block]) ! i))"
  proof (cases "i < length chain")
    case True
    with i assms(2) show ?thesis
      by (auto simp: nth_append)
  next
    case False
    with i have "i = length chain" by simp
    with assms(1,3) show ?thesis
      by (simp add: nth_append last_conv_nth)
  qed
qed

lemma call_ledger_links:
  assumes "Chain blockchain \<noteq> []"
    and "\<forall>i. 0 < i \<and> i < length (Chain blockchain) \<longrightarrow>
           Hash (Chain blockchain ! (i - 1)) = Inr (PreviousHash (Chain blockchain ! i))"
    and "derives_hash c"
  shows "Chain (call_ledger c blockchain) \<noteq> []
         \<and> (\<forall>i. 0 < i \<and> i < length (Chain (call_ledger c blockchain)) \<longrightarrow>
               Hash (Chain (call_ledger c blockchain) ! (i - 1)) =
                 Inr (PreviousHash (Chain (call_ledger c blockchain) ! i)))"
proof (cases c)
  case (CallNewBlock now PreviousHash' nonce)
  with assms(3) have empty: "PreviousHash' = []" by simp
  from NewBlock_result [of blockchain PreviousHash' now nonce] assms(1) empty
  obtain pg where pg: "Hash (last (Chain blockchain)) = Inr pg"
    and new: "Chain (snd (NewBlock now PreviousHash' nonce blockchain)) =
      Chain blockchain @ [\<lparr>Index = of_nat (length (Chain blockchain)) + 1, Timestamp = now,
        Transactions = CurrentTransaction blockchain, Proof = nonce, PreviousHash = pg\<rparr>]"
    by auto
  from links_append [OF assms(1,2), of "\<lparr>Index = of_nat (length (Chain blockchain)) + 1,
      Timestamp = now, Transactions = CurrentTransaction blockchain, Proof = nonce,
      PreviousHash = pg\<rparr>"] pg
  show ?thesis
    by (simp add: CallNewBlock new)
next
  case (CallNewTransaction sender recipient amount)
  have "Chain (snd (NewTransaction sender recipient amount blockchain)) = Chain blockchain"
    by (simp add: NewTransaction_def Let_def split: sum.splits)
  with assms(1,2) show ?thesis
    by (simp add: CallNewTransaction)
qed

lemma calls_links:
  assumes "Chain blockchain \<noteq> []"
    and "\<forall>i. 0 < i \<and> i < length (Chain blockchain) \<longrightarrow>
           Hash (Chain blockchain ! (i - 1)) = Inr (PreviousHash (Chain blockchain ! i))"
    and "list_all derives_hash cs"
  shows "Chain (calls cs blockchain) \<noteq> []
         \<and> (\<forall>i. 0 < i \<and> i < length (Chain (calls cs blockchain)) \<longrightarrow>
               Hash (Chain (calls cs blockchain) ! (i - 1)) =
                 Inr (PreviousHash (Chain (calls cs blockchain) ! i)))"
  using assms
proof (induction cs arbitrary: blockchain)
  case Nil
  then show ?case by simp
next
  case (Cons c cs)
  from Cons.prems(3) have c: "derives_hash c" and cs: "list_all derives_hash cs"
    by simp_all
  from call_ledger_links [OF Cons.prems(1,2) c]
  have "Chain (call_ledger c blockchain) \<noteq> []"
    and "\<forall>i. 0 < i \<and> i < length (Chain (call_ledger c blockchain)) \<longrightarrow>
               Hash (Chain (call_ledger c blockchain) ! (i - 1)) =
                 Inr (PreviousHash (Chain (call_ledger c blockchain) ! i))"
    by blast+
  from Cons.IH [OF this cs] show ?case
    by simp
qed

lemma calls_valid:
  assumes "list_all derives_hash cs"
  shows "validChain (Chain (calls cs (snd (init now)))) = Inr True"
proof -
  have "Chain (snd (init now)) \<noteq> []"
    and "\<forall>i. 0 < i \<and> i < length (Chain (snd (init now))) \<longrightarrow>
           Hash (Chain (snd (init now)) ! (i - 1)) = Inr (PreviousHash (Chain (snd (init now)) ! i))"
    by (simp_all add: init_ledger)
  from calls_links [OF this assms] show ?thesis
    by (simp add: validChain_links)
qed

lemma peer_block_pair_invalid: "validChain [peer_block, peer_block] = Inr False"
proof -
  have "Hash peer_block \<noteq> Inr (PreviousHash peer_block)"
    using Hash_length [of peer_block "PreviousHash peer_block"] by (auto simp: peer_block_def)
  then show ?thesis
    by (simp add: validChain_pair)
qed

section \<open>The serialization is injective on valid UTF-8\<close>

















































section \<open>Facts about tampered chains\<close>



text \<open>
  The string encoder on four inputs: the short escapes of 0x08 and 0x0C, the long escapes
  of 0x01 and \<^verbatim>\<open><\<close>; an invalid byte; a two-byte character, written as it is; and
  U+2028.
\<close>

lemma encoder_samples:
  "json_string [CHR 0x08, CHR 0x0C, CHR 0x01, CHR ''<''] =
     [0x22, 0x5C, 0x62, 0x5C, 0x66, 0x5C, 0x75, 0x30, 0x30, 0x30, 0x31,
      0x5C, 0x75, 0x30, 0x30, 0x33, 0x63, 0x22]"
  "json_string [CHR 0xFF] = [0x22, 0xEF, 0xBF, 0xBD, 0x22]"
  "json_string [CHR 0xC3, CHR 0xA9] = [0x22, 0xC3, 0xA9, 0x22]"
  "json_string [CHR 0xE2, CHR 0x80, CHR 0xA8] = [0x22, 0x5C, 0x75, 0x32, 0x30, 0x32, 0x38, 0x22]"
  by code_simp+









section \<open>Facts about signed comparison and the search loop\<close>

lemma uint_less_iff_unat:
  fixes w :: go_int
  shows "(uint w < 2 ^ 63) = (unat w < 2 ^ 63)"
proof -
  have "(int (unat w) < int (2 ^ 63)) = (unat w < 2 ^ 63)"
    by (rule of_nat_less_iff)
  then show ?thesis
    by (simp only: uint_nat of_nat_power of_nat_numeral)
qed

lemma sint_unat_small:
  fixes w :: go_int
  assumes "unat w < 2 ^ 63"
  shows "sint w = int (unat w)"
proof -
  have lt: "uint w < 2 ^ 63"
    using assms by (simp only: uint_less_iff_unat)
  have "- (2 ^ 63) \<le> (0::int)"
    by simp
  also have "0 \<le> uint w"
    by simp
  finally have "signed_take_bit 63 (uint w) = uint w"
    using lt by (rule signed_take_bit_int_eq_self)
  then have "sint w = uint w"
    by (simp only: sint_uint) simp
  then show ?thesis
    by (simp only: uint_nat)
qed

lemma sint_unat_large:
  fixes w :: go_int
  assumes "\<not> unat w < 2 ^ 63"
  shows "sint w < 0"
proof -
  have ge: "2 ^ 63 \<le> uint w"
    using assms by (simp only: uint_less_iff_unat [symmetric] not_less)
  have lt: "uint w < 2 ^ 64"
    using uint_bounded [of w] by simp
  from signed_take_bit_int_less_eq [OF ge]
  have "signed_take_bit 63 (uint w) \<le> uint w - 2 ^ 64"
    by simp
  with lt have "signed_take_bit 63 (uint w) < 0"
    by linarith
  then show ?thesis
    by (simp only: sint_uint) simp
qed

lemma sint_nonneg_unat:
  fixes w :: go_int
  shows "(0 \<le>s w) = (unat w < 2 ^ 63)"
proof (cases "unat w < 2 ^ 63")
  case True
  have "0 \<le> int (unat w)" by simp
  with sint_unat_small [OF True] True show ?thesis
    by (simp only: word_sle_eq sint_0)
next
  case False
  with sint_unat_large [OF False] show ?thesis
    by (simp only: word_sle_eq sint_0) simp
qed

lemma ProofOfWork_loop_finds:
  assumes "validProof lastProof (start + of_nat k)"
    and "\<forall>j < k. \<not> validProof lastProof (start + of_nat j)"
  shows "ProofOfWork_loop lastProof start = Some (start + of_nat k)"
  using assms
proof (induction k arbitrary: start)
  case 0
  then show ?case
    by (subst ProofOfWork_loop.simps) simp
next
  case (Suc k)
  from Suc.prems(2) [rule_format, of 0] have first: "\<not> validProof lastProof start"
    by simp
  have shift: "start + 1 + of_nat j = start + of_nat (Suc j)" for j
    by simp
  have "validProof lastProof (start + 1 + of_nat k)"
    using Suc.prems(1) by (simp only: shift)
  moreover have "\<forall>j < k. \<not> validProof lastProof (start + 1 + of_nat j)"
  proof (intro allI impI)
    fix j assume "j < k"
    with Suc.prems(2) [rule_format, of "Suc j"] show "\<not> validProof lastProof (start + 1 + of_nat j)"
      by (simp only: shift) simp
  qed
  ultimately have "ProofOfWork_loop lastProof (start + 1) = Some (start + 1 + of_nat k)"
    by (rule Suc.IH)
  with first show ?case
    by (subst ProofOfWork_loop.simps) (simp only: shift, simp)
qed

lemma ProofOfWork_least:
  assumes "0 \<le>s p" and "validProof lastProof p"
  shows "\<exists>q. ProofOfWork lastProof = Some q \<and> validProof lastProof q \<and> 0 \<le>s q \<and> q \<le>s p
              \<and> (\<forall>c. 0 \<le>s c \<and> c <s q \<longrightarrow> \<not> validProof lastProof c)"
proof -
  define k where "k = (LEAST k. validProof lastProof (of_nat k))"
  have ex: "validProof lastProof (of_nat (unat p))"
    using assms(2) by simp
  then have valid: "validProof lastProof (of_nat k)"
    unfolding k_def by (rule LeastI)
  have le: "k \<le> unat p"
    unfolding k_def using ex by (rule Least_le)
  have least: "\<not> validProof lastProof (of_nat j)" if "j < k" for j
    using that not_less_Least unfolding k_def by blast
  have small: "unat p < 2 ^ 63"
    using assms(1) by (simp only: sint_nonneg_unat)
  let ?q = "of_nat k :: go_int"
  have "k < 2 ^ LENGTH(64)"
    using le unsigned_less [of p] by (rule le_less_trans)
  with refl have uq: "unat ?q = k"
    by (rule of_nat_inverse)
  have qsmall: "unat ?q < 2 ^ 63"
    using le small by (simp only: uq)
  have "ProofOfWork_loop lastProof (0 + 0) = Some (0 + of_nat k)"
    using ProofOfWork_loop_finds [of lastProof 0 k] valid least by simp
  then have run: "ProofOfWork lastProof = Some ?q"
    by (simp add: ProofOfWork_def)
  have q0: "0 \<le>s ?q"
    using qsmall by (simp only: sint_nonneg_unat)
  have "int k \<le> int (unat p)"
    using le by (simp only: of_nat_le_iff)
  then have qp: "?q \<le>s p"
    by (simp only: word_sle_eq sint_unat_small [OF qsmall] sint_unat_small [OF small] uq)
  have minimal: "\<not> validProof lastProof c" if "0 \<le>s c \<and> c <s ?q" for c
  proof -
    from that have c: "unat c < 2 ^ 63"
      by (simp only: sint_nonneg_unat)
    from that have "sint c < sint ?q"
      by (simp only: word_sless_alt)
    then have "int (unat c) < int k"
      by (simp only: sint_unat_small [OF qsmall] sint_unat_small [OF c] uq)
    then have "unat c < k"
      by (simp only: of_nat_less_iff)
    from least [OF this] show ?thesis by simp
  qed
  from run valid q0 qp minimal show ?thesis
    by blast
qed

text \<open>What the loop returns satisfies the predicate, and it returns exactly when a candidate does.\<close>

lemma ProofOfWork_loop_valid:
  assumes "ProofOfWork_loop lastProof start = Some q"
  shows "validProof lastProof q"
proof (rule ProofOfWork_loop.raw_induct [where P = "\<lambda>r s q. validProof r q", OF _ assms])
  fix loop :: "go_int \<Rightarrow> go_int \<Rightarrow> go_int option" and r s y
  assume "\<And>r s y. loop r s = Some y \<Longrightarrow> validProof r y"
    and "(if validProof r s = False then loop r (s + 1) else Some s) = Some y"
  then show "validProof r y"
    by (auto split: if_splits)
qed

lemma ProofOfWork_returns_iff:
  "(\<exists>q. ProofOfWork lastProof = Some q) = (\<exists>c. validProof lastProof c)"
proof
  assume "\<exists>q. ProofOfWork lastProof = Some q"
  then show "\<exists>c. validProof lastProof c"
    using ProofOfWork_loop_valid [of lastProof 0] by (auto simp: ProofOfWork_def)
next
  assume "\<exists>c. validProof lastProof c"
  then obtain c where c: "validProof lastProof c" by blast
  define k where "k = (LEAST k. validProof lastProof (of_nat k))"
  have "validProof lastProof (of_nat (unat c))"
    using c by simp
  then have valid: "validProof lastProof (of_nat k)"
    unfolding k_def by (rule LeastI)
  have least: "\<not> validProof lastProof (of_nat j)" if "j < k" for j
    using that not_less_Least unfolding k_def by blast
  have "ProofOfWork_loop lastProof (0 + 0) = Some (0 + of_nat k)"
    using ProofOfWork_loop_finds [of lastProof 0 k] valid least by simp
  then show "\<exists>q. ProofOfWork lastProof = Some q"
    by (simp add: ProofOfWork_def)
qed

section \<open>Evaluated digests\<close>

text \<open>
  SHA-256 of three short inputs, the hash of the genesis block created at time 0 and the
  hash of that block with the proof 101 in place of 100, computed from the definitions
  above; they agree with the digests any SHA-256 implementation prints (the genesis block
  is serialized in 112 bytes, two chunks).
\<close>

lemma digest_937111:
  "EncodeToString (Sum256 (bytes_of ''937111'')) =
     ''0000e6b89b0f08f0f7faf26f0ce60185e5043f11ed84c8881033ea0580011111''"
  by code_simp

lemma digest_937110:
  "EncodeToString (Sum256 (bytes_of ''937110'')) =
     ''c4335ad404f7f2548e803bd4428269cbecd358632f6140521b19271d60c90638''"
  by code_simp

lemma digest_1000:
  "EncodeToString (Sum256 (bytes_of ''1000'')) =
     ''40510175845988f13f6162ed8526f0b09f73384467fa855e1e79b44a56562a58''"
  by code_simp

lemma Hash_genesis:
  "Hash \<lparr>Index = 1, Timestamp = 0, Transactions = Transaction_zero, Proof = 100,
          PreviousHash = ''1''\<rparr> =
     Inr ''a1a8e4854c1d8003f06b76bb6b91f87443baf583b35782c750f240379b058323''"
  by code_simp


lemma Itoa_samples:
  "Itoa 93711 = ''93711''" "Itoa 100 = ''100''" "Itoa 0 = ''0''" "Itoa 1 = ''1''"
  by code_simp+

lemma validProof_samples:
  "validProof 93711 1" "\<not> validProof 93711 0" "\<not> validProof 100 0"
  by (simp_all add: validProof_def Itoa_samples digest_937111 digest_937110 digest_1000)

lemma word_sle_zero_one:
  fixes q :: go_int
  assumes "0 \<le>s q" and "q \<le>s 1"
  shows "q = 0 \<or> q = 1"
proof -
  from assms have "sint q = 0 \<or> sint q = 1"
    by (auto simp: word_sle_eq)
  then have "sint q = sint (0 :: go_int) \<or> sint q = sint (1 :: go_int)"
    by simp
  then show ?thesis
    by (metis signed_word_eqI)
qed

section \<open>Genesis\<close>

text \<open>
  Claim C7. A freshly initialized ledger (\<^verbatim>\<open>init\<close> does not panic) has a chain of exactly
  one block, whose index is 1, whose previous hash is the string "1" and whose proof is 100
  (its timestamp is the time of the call and its transaction the empty record), and its
  pending transaction is the empty record.
\<close>

theorem genesis_ledger:
  "fst (init now) = Inr ()
   \<and> Chain (snd (init now)) =
       [\<lparr>Index = 1, Timestamp = now, Transactions = \<lparr>Sender = [], Recipient = [], Amount = 0\<rparr>,
         Proof = 100, PreviousHash = ''1''\<rparr>]
   \<and> CurrentTransaction (snd (init now)) = \<lparr>Sender = [], Recipient = [], Amount = 0\<rparr>"
  by (simp add: init_def NewBlock_def BlockChain_zero_def Transaction_zero_def Let_def)

section \<open>Block creation\<close>

text \<open>
  Claim C6. On a ledger whose chain is not empty, \<^verbatim>\<open>NewBlock\<close> returns a block whose
  previous hash is the one it was given when that is not the empty string and the hash of
  the chain's last block otherwise, whose index is the chain's length plus one, that
  carries the pending transaction and the given proof; the block is appended as the new last
  element, the pending transaction is reset to the empty record, the chain grows by
  exactly one and its earlier blocks stay as they were.
\<close>

theorem NewBlock_appends:
  assumes "Chain blockchain \<noteq> []"
  shows "\<exists>block. NewBlock now PreviousHash' proof blockchain =
            (Inr block, blockchain\<lparr>CurrentTransaction := \<lparr>Sender = [], Recipient = [], Amount = 0\<rparr>,
                                   Chain := Chain blockchain @ [block]\<rparr>)
          \<and> (if PreviousHash' \<noteq> [] then PreviousHash block = PreviousHash'
              else Hash (last (Chain blockchain)) = Inr (PreviousHash block))
          \<and> Index block = of_nat (length (Chain blockchain)) + 1
          \<and> Timestamp block = now
          \<and> Transactions block = CurrentTransaction blockchain
          \<and> Proof block = proof
          \<and> length (Chain (snd (NewBlock now PreviousHash' proof blockchain))) = length (Chain blockchain) + 1
          \<and> take (length (Chain blockchain)) (Chain (snd (NewBlock now PreviousHash' proof blockchain))) = Chain blockchain
          \<and> last (Chain (snd (NewBlock now PreviousHash' proof blockchain))) = block"
proof -
  obtain h where h: "Hash (Chain blockchain ! (length (Chain blockchain) - 1)) = Inr h"
    using Hash_total by blast
  have l: "last (Chain blockchain) = Chain blockchain ! (length (Chain blockchain) - 1)"
    using assms by (simp add: last_conv_nth)
  show ?thesis
    using assms h l by (simp add: NewBlock_def Transaction_zero_def Let_def)
qed

text \<open>
  The block appended to the genesis ledger carries the hash of the genesis block, and one
  given a previous hash carries that.
\<close>

theorem NewBlock_appends_witness:
  "Chain (snd (init 0)) \<noteq> []
   \<and> length (Chain (snd (NewBlock 60 [] 35293 (snd (init 0))))) = 2
   \<and> Index (last (Chain (snd (NewBlock 60 [] 35293 (snd (init 0)))))) = 2
   \<and> Proof (last (Chain (snd (NewBlock 60 [] 35293 (snd (init 0)))))) = 35293
   \<and> PreviousHash (last (Chain (snd (NewBlock 60 [] 35293 (snd (init 0)))))) =
       ''a1a8e4854c1d8003f06b76bb6b91f87443baf583b35782c750f240379b058323''
   \<and> PreviousHash (last (Chain (snd (NewBlock 60 ''abc'' 35293 (snd (init 0)))))) = ''abc''
   \<and> CurrentTransaction (snd (NewBlock 60 [] 35293 (snd (init 0)))) =
       \<lparr>Sender = [], Recipient = [], Amount = 0\<rparr>"
proof -
  have ne: "Chain (snd (init 0)) \<noteq> []"
    by (simp add: init_def NewBlock_def BlockChain_zero_def Let_def)
  have len: "length (Chain (snd (init 0))) = 1"
    by (simp add: init_def NewBlock_def BlockChain_zero_def Let_def)
  obtain block where block:
    "NewBlock 60 [] 35293 (snd (init 0)) =
       (Inr block, (snd (init 0))\<lparr>CurrentTransaction := \<lparr>Sender = [], Recipient = [], Amount = 0\<rparr>,
                                  Chain := Chain (snd (init 0)) @ [block]\<rparr>)"
    "Hash (last (Chain (snd (init 0)))) = Inr (PreviousHash block)"
    "Index block = of_nat (length (Chain (snd (init 0)))) + 1"
    "Proof block = 35293"
    using NewBlock_appends [OF ne, of 60 "[]" 35293] by auto
  obtain block' where block':
    "NewBlock 60 ''abc'' 35293 (snd (init 0)) =
       (Inr block', (snd (init 0))\<lparr>CurrentTransaction := \<lparr>Sender = [], Recipient = [], Amount = 0\<rparr>,
                                   Chain := Chain (snd (init 0)) @ [block']\<rparr>)"
    "PreviousHash block' = ''abc''"
    using NewBlock_appends [OF ne, of 60 "''abc''" 35293] by auto
  have "last (Chain (snd (init 0))) =
      \<lparr>Index = 1, Timestamp = 0, Transactions = Transaction_zero, Proof = 100,
        PreviousHash = ''1''\<rparr>"
    by (simp add: init_ledger)
  with block(2) Hash_genesis
  have "PreviousHash block = ''a1a8e4854c1d8003f06b76bb6b91f87443baf583b35782c750f240379b058323''"
    by simp
  then show ?thesis
    using ne by (simp add: block block' len)
qed

section \<open>The pending transaction\<close>

text \<open>
  Claim C8. On a ledger whose chain is not empty, \<^verbatim>\<open>NewTransaction\<close> replaces the pending
  transaction by the record it is given, whatever the sender, the recipient and the amount
  are, returns the last block's index plus one and leaves the chain as it is. A second
  call before any \<^verbatim>\<open>NewBlock\<close> leaves only the second record, and that record is the one
  the next block carries.
\<close>

theorem NewTransaction_overwrites:
  assumes "Chain blockchain \<noteq> []"
  shows "NewTransaction sender recipient amount blockchain =
           (Inr (Index (last (Chain blockchain)) + 1),
            blockchain\<lparr>CurrentTransaction := \<lparr>Sender = sender, Recipient = recipient, Amount = amount\<rparr>\<rparr>)
         \<and> snd (NewTransaction sender' recipient' amount'
                  (snd (NewTransaction sender recipient amount blockchain))) =
             blockchain\<lparr>CurrentTransaction := \<lparr>Sender = sender', Recipient = recipient', Amount = amount'\<rparr>\<rparr>
         \<and> (\<exists>block. fst (NewBlock now PreviousHash' proof
                            (snd (NewTransaction sender' recipient' amount'
                                    (snd (NewTransaction sender recipient amount blockchain))))) = Inr block
                \<and> Transactions block = \<lparr>Sender = sender', Recipient = recipient', Amount = amount'\<rparr>)"
proof -
  obtain h where h: "Hash (Chain blockchain ! (length (Chain blockchain) - 1)) = Inr h"
    using Hash_total by blast
  show ?thesis
    using assms h by (simp add: NewTransaction_def LastBlock_def NewBlock_def Let_def last_conv_nth)
qed

text \<open>Two transactions posted on the genesis ledger: the answer is 2, the second stays.\<close>

theorem NewTransaction_overwrites_witness:
  "Chain (snd (init 0)) \<noteq> []
   \<and> fst (NewTransaction ''alice'' ''bob'' 5 (snd (init 0))) = Inr 2
   \<and> Chain (snd (NewTransaction ''alice'' ''bob'' 5 (snd (init 0)))) = Chain (snd (init 0))
   \<and> CurrentTransaction (snd (NewTransaction ''carol'' ''dave'' (- 7)
         (snd (NewTransaction ''alice'' ''bob'' 5 (snd (init 0)))))) =
       \<lparr>Sender = ''carol'', Recipient = ''dave'', Amount = - 7\<rparr>"
proof -
  have ne: "Chain (snd (init 0)) \<noteq> []"
    by (simp add: init_def NewBlock_def BlockChain_zero_def Let_def)
  have idx: "Index (last (Chain (snd (init 0)))) = 1"
    by (simp add: init_def NewBlock_def BlockChain_zero_def Let_def)
  note t = NewTransaction_overwrites
    [OF ne, of "''alice''" "''bob''" 5 "''carol''" "''dave''" "- 7" 0 "[]" 0]
  from t have first: "NewTransaction ''alice'' ''bob'' 5 (snd (init 0)) =
      (Inr (Index (last (Chain (snd (init 0)))) + 1),
       (snd (init 0))\<lparr>CurrentTransaction := \<lparr>Sender = ''alice'', Recipient = ''bob'', Amount = 5\<rparr>\<rparr>)"
    by blast
  from t have second: "snd (NewTransaction ''carol'' ''dave'' (- 7)
         (snd (NewTransaction ''alice'' ''bob'' 5 (snd (init 0))))) =
      (snd (init 0))\<lparr>CurrentTransaction := \<lparr>Sender = ''carol'', Recipient = ''dave'', Amount = - 7\<rparr>\<rparr>"
    by blast
  have "fst (NewTransaction ''alice'' ''bob'' 5 (snd (init 0))) = Inr 2"
    by (simp add: first idx)
  moreover have "Chain (snd (NewTransaction ''alice'' ''bob'' 5 (snd (init 0)))) = Chain (snd (init 0))"
    by (simp add: first)
  moreover have "CurrentTransaction (snd (NewTransaction ''carol'' ''dave'' (- 7)
         (snd (NewTransaction ''alice'' ''bob'' 5 (snd (init 0)))))) =
       \<lparr>Sender = ''carol'', Recipient = ''dave'', Amount = - 7\<rparr>"
    by (simp only: second) simp
  ultimately show ?thesis
    using ne by blast
qed
section \<open>Chain validity\<close>

text \<open>
  Claim C3, amended. For every candidate chain that is not empty, \<^verbatim>\<open>validChain\<close> returns
  a boolean: true exactly when every block from index 1 on carries, as its previous hash,
  the hash of the block before it in the candidate chain, and false as soon as one does
  not; a chain of a single block is valid. Nothing else is looked at (no proof is checked
  again), and the function takes and returns no ledger.
\<close>

theorem validChain_checks_links:
  assumes "chain \<noteq> []"
  shows "validChain chain =
           Inr (\<forall>i. 0 < i \<and> i < length chain \<longrightarrow>
                  Hash (chain ! (i - 1)) = Inr (PreviousHash (chain ! i)))
         \<and> validChain [block] = Inr True
         \<and> (\<forall>k. 0 < k \<and> k < length chain
                \<and> Hash (chain ! (k - 1)) \<noteq> Inr (PreviousHash (chain ! k)) \<longrightarrow>
              validChain chain = Inr False)"
  using validChain_links [OF assms] validChain_single [of block] by auto

text \<open>
  The chain of the genesis ledger after a block with proof 0 was appended is valid,
  although 0 is no valid proof after the genesis proof 100; a chain whose second block
  does not carry the hash of the first is not valid.
\<close>

theorem validChain_checks_links_witness:
  "Chain (calls [CallNewBlock 60 [] 0] (snd (init 0))) \<noteq> []
   \<and> validChain (Chain (calls [CallNewBlock 60 [] 0] (snd (init 0)))) = Inr True
   \<and> map Proof (Chain (calls [CallNewBlock 60 [] 0] (snd (init 0)))) = [100, 0]
   \<and> \<not> validProof 100 0
   \<and> [peer_block, peer_block] \<noteq> []
   \<and> validChain [peer_block, peer_block] = Inr False
   \<and> validChain [peer_block] = Inr True"
proof -
  let ?g = "\<lparr>Index = 1, Timestamp = 0, Transactions = Transaction_zero, Proof = 100,
             PreviousHash = ''1''\<rparr>"
  obtain pg where pg: "Hash ?g = Inr pg"
    using Hash_total by blast
  have chain: "Chain (calls [CallNewBlock 60 [] 0] (snd (init 0))) =
      [?g, \<lparr>Index = 2, Timestamp = 60, Transactions = Transaction_zero, Proof = 0,
             PreviousHash = pg\<rparr>]"
    using pg by (simp add: init_ledger NewBlock_def Let_def)
  have ne: "Chain (calls [CallNewBlock 60 [] 0] (snd (init 0))) \<noteq> []"
    by (simp only: chain) simp
  have links: "\<forall>i. 0 < i \<and> i < length (Chain (calls [CallNewBlock 60 [] 0] (snd (init 0)))) \<longrightarrow>
      Hash (Chain (calls [CallNewBlock 60 [] 0] (snd (init 0))) ! (i - 1)) =
        Inr (PreviousHash (Chain (calls [CallNewBlock 60 [] 0] (snd (init 0))) ! i))"
    using pg by (simp only: chain) (auto simp: less_Suc_eq)
  from validChain_checks_links [OF ne, of peer_block] links
  have valid: "validChain (Chain (calls [CallNewBlock 60 [] 0] (snd (init 0)))) = Inr True"
    and single: "validChain [peer_block] = Inr True"
    by simp_all
  have ne': "[peer_block, peer_block] \<noteq> []"
    by simp
  have "Hash peer_block \<noteq> Inr (PreviousHash peer_block)"
    using Hash_length [of peer_block "PreviousHash peer_block"] by (auto simp: peer_block_def)
  with validChain_checks_links [OF ne', of peer_block, THEN conjunct2, THEN conjunct2,
      rule_format, of 1]
  have broken: "validChain [peer_block, peer_block] = Inr False"
    by simp
  have proofs: "map Proof (Chain (calls [CallNewBlock 60 [] 0] (snd (init 0)))) = [100, 0]"
    by (simp only: chain) simp
  from ne valid proofs validProof_samples(3) ne' broken single show ?thesis
    by blast
qed

text \<open>The claim as it was stated fails on the empty chain, where there is no boolean.\<close>

theorem validChain_no_answer_on_empty: "validChain [] = Inl IndexOutOfRange"
  by (simp add: validChain_def)

section \<open>The hash-link invariant\<close>

text \<open>
  Claim C4, amended. Every chain obtained from a freshly initialized ledger by a sequence
  of \<^verbatim>\<open>NewBlock\<close> calls that pass the empty string as previous hash (so that \<^verbatim>\<open>NewBlock\<close>
  derives it from the last block, as mining does), interleaved with any \<^verbatim>\<open>NewTransaction\<close>
  calls, passes \<^verbatim>\<open>validChain\<close>.
\<close>

theorem appended_chain_valid:
  assumes "list_all derives_hash cs"
  shows "validChain (Chain (calls cs (snd (init now)))) = Inr True"
  using assms by (rule calls_valid)

text \<open>Two mined blocks, with three posted transactions between them.\<close>

theorem appended_chain_valid_witness:
  "list_all derives_hash
     [CallNewTransaction ''0'' ''node'' 1, CallNewBlock 60 [] 35293,
      CallNewTransaction ''alice'' ''bob'' 5, CallNewTransaction ''bob'' ''alice'' (- 5),
      CallNewBlock 120 [] 35089]
   \<and> validChain (Chain (calls
     [CallNewTransaction ''0'' ''node'' 1, CallNewBlock 60 [] 35293,
      CallNewTransaction ''alice'' ''bob'' 5, CallNewTransaction ''bob'' ''alice'' (- 5),
      CallNewBlock 120 [] 35089] (snd (init 0)))) = Inr True"
proof -
  have d: "list_all derives_hash
     [CallNewTransaction ''0'' ''node'' 1, CallNewBlock 60 [] 35293,
      CallNewTransaction ''alice'' ''bob'' 5, CallNewTransaction ''bob'' ''alice'' (- 5),
      CallNewBlock 120 [] 35089]"
    by simp
  from appended_chain_valid [OF d, of 0] d show ?thesis
    by blast
qed

text \<open>
  The claim as it was stated fails for a \<^verbatim>\<open>NewBlock\<close> call that is given a previous hash:
  the block is appended with that string, which is not the hash of the genesis block.
\<close>

theorem explicit_previous_hash_breaks_link:
  "validChain (Chain (calls [CallNewBlock 60 ''abc'' 7] (snd (init 0)))) = Inr False"
proof -
  let ?g = "\<lparr>Index = 1, Timestamp = 0, Transactions = Transaction_zero, Proof = 100,
             PreviousHash = ''1''\<rparr>"
  have "Hash ?g \<noteq> Inr ''abc''"
    using Hash_length [of ?g "''abc''"] by auto
  then show ?thesis
    by (simp add: init_ledger NewBlock_def Let_def validChain_pair)
qed

section \<open>Tampering\<close>




section \<open>Proof of work\<close>

text \<open>
  What is proved of the search. \<^verbatim>\<open>validProof\<close> holds of a reference proof and a candidate
  exactly when the hex-encoded SHA-256 digest of the two decimal strings, one after the
  other, starts with four characters 0. For every reference proof, what
  \<^verbatim>\<open>ProofOfWork\<close> returns satisfies \<^verbatim>\<open>validProof\<close>; the search returns exactly when some
  candidate satisfies it; and when a candidate that is not negative satisfies it, the
  search returns the smallest such candidate. That every reference proof has such a
  candidate is a statement about SHA-256 on 2^64 references that is neither proved nor
  refuted here: for a reference that has none the loop never returns, or returns a
  negative candidate after \<^verbatim>\<open>proof++\<close> has wrapped. So the search is not shown to
  return for every reference proof.
\<close>

lemma ProofOfWork_smallest:
  "(\<forall>c. validProof lastProof c =
         (take 4 (EncodeToString (Sum256 (bytes_of (Itoa lastProof @ Itoa c)))) = ''0000''))
   \<and> (\<forall>q. ProofOfWork lastProof = Some q \<longrightarrow> validProof lastProof q)
   \<and> ((\<exists>q. ProofOfWork lastProof = Some q) = (\<exists>c. validProof lastProof c))
   \<and> (\<forall>p. 0 \<le>s p \<and> validProof lastProof p \<longrightarrow>
          (\<exists>q. ProofOfWork lastProof = Some q \<and> validProof lastProof q \<and> 0 \<le>s q \<and> q \<le>s p
               \<and> (\<forall>c. 0 \<le>s c \<and> c <s q \<longrightarrow> \<not> validProof lastProof c)))"
proof -
  have predicate: "\<forall>c. validProof lastProof c =
      (take 4 (EncodeToString (Sum256 (bytes_of (Itoa lastProof @ Itoa c)))) = ''0000'')"
    by (simp add: validProof_def)
  have returned: "\<forall>q. ProofOfWork lastProof = Some q \<longrightarrow> validProof lastProof q"
    using ProofOfWork_loop_valid [of lastProof 0] by (simp add: ProofOfWork_def)
  have smallest: "\<forall>p. 0 \<le>s p \<and> validProof lastProof p \<longrightarrow>
      (\<exists>q. ProofOfWork lastProof = Some q \<and> validProof lastProof q \<and> 0 \<le>s q \<and> q \<le>s p
           \<and> (\<forall>c. 0 \<le>s c \<and> c <s q \<longrightarrow> \<not> validProof lastProof c))"
    using ProofOfWork_least [of _ lastProof] by blast
  from predicate returned ProofOfWork_returns_iff [of lastProof] smallest show ?thesis
    by blast
qed

text \<open>After the reference proof 93711 the candidate 0 fails and 1 succeeds.\<close>

lemma ProofOfWork_93711:
  "0 \<le>s (1 :: go_int) \<and> validProof 93711 1 \<and> \<not> validProof 93711 0
   \<and> ProofOfWork 93711 = Some 1"
proof -
  have nonneg: "0 \<le>s (1 :: go_int)"
    by (simp add: word_sle_eq)
  from ProofOfWork_smallest [of 93711] nonneg validProof_samples(1)
  obtain q where q: "ProofOfWork 93711 = Some q" "validProof 93711 q" "0 \<le>s q" "q \<le>s 1"
    by blast
  from word_sle_zero_one [OF q(3,4)] q(2) validProof_samples(2) have "q = 1"
    by auto
  with q(1) nonneg validProof_samples(1,2) show ?thesis
    by simp
qed

section \<open>Consensus resolution\<close>

text \<open>
  Claim C1, amended. For every ledger and every sequence of peer responses (every fetch
  succeeds with status 200 and a body that decodes) in which no empty chain is examined
  (none has a reported length strictly greater than the running best length when its turn
  comes), \<^verbatim>\<open>resolveConflicts\<close> returns, and its answer and the ledger it leaves are those of
  the specification's scan: a peer chain is adopted only when the peer's reported length is
  strictly greater than the running best length, which starts at the local chain's length,
  and the chain passes \<^verbatim>\<open>validChain\<close>; when a chain was adopted the local chain is replaced
  by it and the answer is true, otherwise the ledger is unchanged and the answer is false.
  When no peer reports more than the local length the answer is false, whatever the chains
  are. Where an empty chain is examined, and where a fetch fails, \<^verbatim>\<open>resolveConflicts\<close>
  panics and leaves the ledger as it was.
\<close>

theorem resolveConflicts_adopts:
  "(\<forall>responses.
       map (\<lambda>node. http_Get (node @ ''/chain'')) (Nodes local) =
         map (\<lambda>r. Response 200 (Some r)) responses \<longrightarrow>
       (if examines_empty responses (of_nat (length (Chain local)))
        then resolveConflicts http_Get local = (Inl IndexOutOfRange, local)
        else resolveConflicts http_Get local =
               (Inr (fst (spec_resolve responses local)), snd (spec_resolve responses local))
             \<and> (fst (spec_resolve responses local) \<longrightarrow>
                  (\<exists>r \<in> set responses. of_nat (length (Chain local)) <s Length r
                      \<and> validChain (PeerChain r) = Inr True
                      \<and> snd (spec_resolve responses local) = local\<lparr>Chain := PeerChain r\<rparr>))
             \<and> (\<not> fst (spec_resolve responses local) \<longrightarrow>
                  snd (spec_resolve responses local) = local))
       \<and> ((\<forall>r \<in> set responses. \<not> of_nat (length (Chain local)) <s Length r) \<longrightarrow>
             resolveConflicts http_Get local = (Inr False, local)))
   \<and> ((\<not> (\<exists>responses. map (\<lambda>node. http_Get (node @ ''/chain'')) (Nodes local) =
                map (\<lambda>r. Response 200 (Some r)) responses)) \<longrightarrow>
        (\<exists>e. resolveConflicts http_Get local = (Inl e, local)))"
proof -
  let ?replies = "map (\<lambda>node. http_Get (node @ ''/chain'')) (Nodes local)"
  let ?n = "of_nat (length (Chain local)) :: go_int"
  have decoded: "(if examines_empty responses ?n
        then resolveConflicts http_Get local = (Inl IndexOutOfRange, local)
        else resolveConflicts http_Get local =
               (Inr (fst (spec_resolve responses local)), snd (spec_resolve responses local))
             \<and> (fst (spec_resolve responses local) \<longrightarrow>
                  (\<exists>r \<in> set responses. ?n <s Length r
                      \<and> validChain (PeerChain r) = Inr True
                      \<and> snd (spec_resolve responses local) = local\<lparr>Chain := PeerChain r\<rparr>))
             \<and> (\<not> fst (spec_resolve responses local) \<longrightarrow>
                  snd (spec_resolve responses local) = local))
       \<and> ((\<forall>r \<in> set responses. \<not> ?n <s Length r) \<longrightarrow>
             resolveConflicts http_Get local = (Inr False, local))"
    if r: "?replies = map (\<lambda>r. Response 200 (Some r)) responses" for responses
  proof -
    have "case None of None \<Rightarrow> ([] :: Block list) = [] | Some c \<Rightarrow> [] = c \<and> c \<noteq> []"
      by simp
    from resolve_loop_decoded [OF this, of responses ?n]
    have loop: "resolve_loop ?replies ?n [] =
           (if examines_empty responses ?n then Inl IndexOutOfRange
            else Inr (fst (spec_scan responses ?n None),
                      case snd (spec_scan responses ?n None) of None \<Rightarrow> [] | Some c \<Rightarrow> c))"
      and ne: "case snd (spec_scan responses ?n None) of None \<Rightarrow> True | Some c \<Rightarrow> c \<noteq> []"
      by (simp_all add: r)
    have run: "resolveConflicts http_Get local =
        (if examines_empty responses ?n then (Inl IndexOutOfRange, local)
         else (Inr (fst (spec_resolve responses local)), snd (spec_resolve responses local)))"
      using loop ne by (auto simp: resolveConflicts_def spec_resolve_def split: option.splits)
    have adopted: "\<exists>r \<in> set responses. ?n <s Length r \<and> validChain (PeerChain r) = Inr True
        \<and> snd (spec_resolve responses local) = local\<lparr>Chain := PeerChain r\<rparr>"
      if "fst (spec_resolve responses local)"
    proof -
      from that obtain c where c: "snd (spec_scan responses ?n None) = Some c"
        "snd (spec_resolve responses local) = local\<lparr>Chain := c\<rparr>"
        by (auto simp: spec_resolve_def split: option.splits)
      from spec_scan_adopted [OF c(1)] c(2) show ?thesis
        by auto
    qed
    have kept: "snd (spec_resolve responses local) = local"
      if "\<not> fst (spec_resolve responses local)"
      using that by (auto simp: spec_resolve_def split: option.splits)
    have tie: "resolveConflicts http_Get local = (Inr False, local)"
      if "\<forall>r \<in> set responses. \<not> ?n <s Length r"
      using spec_scan_tie [OF that, of None] run by (simp add: spec_resolve_def)
    from run adopted kept tie show ?thesis
      by (cases "examines_empty responses ?n") auto
  qed
  have undecoded: "\<exists>e. resolveConflicts http_Get local = (Inl e, local)"
    if "\<not> (\<exists>responses. ?replies = map (\<lambda>r. Response 200 (Some r)) responses)"
  proof -
    from resolve_loop_undecoded [OF that, of ?n "[]"] obtain e
      where "resolve_loop ?replies ?n [] = Inl e" by blast
    then show ?thesis
      by (auto simp: resolveConflicts_def)
  qed
  from decoded undecoded show ?thesis
    by blast
qed

text \<open>
  On the genesis ledger: a longer chain with a broken link is passed over and the next,
  valid and longer, is adopted; with the broken chain and a peer of the local length the
  answer is false; peers of the local length are not adopted, not even examined; an empty
  chain reported longer, and a failed fetch, make the resolution panic.
\<close>

theorem resolveConflicts_adopts_witness:
  "resolveConflicts
     (two_peers \<lparr>PeerChain = [peer_block, peer_block], Length = 2\<rparr>
                \<lparr>PeerChain = [peer_block], Length = 3\<rparr>)
     genesis_node = (Inr True, genesis_node\<lparr>Chain := [peer_block]\<rparr>)
   \<and> resolveConflicts
     (two_peers \<lparr>PeerChain = [peer_block, peer_block], Length = 2\<rparr>
                \<lparr>PeerChain = [peer_block], Length = 1\<rparr>)
     genesis_node = (Inr False, genesis_node)
   \<and> resolveConflicts
     (two_peers \<lparr>PeerChain = [], Length = 1\<rparr> \<lparr>PeerChain = [peer_block], Length = 1\<rparr>)
     genesis_node = (Inr False, genesis_node)
   \<and> resolveConflicts
     (two_peers \<lparr>PeerChain = [], Length = 2\<rparr> \<lparr>PeerChain = [peer_block], Length = 3\<rparr>)
     genesis_node = (Inl IndexOutOfRange, genesis_node)
   \<and> (\<exists>e. resolveConflicts (\<lambda>url. GetFailed) genesis_node = (Inl e, genesis_node))"
proof -
  have decoded: "map (\<lambda>node. two_peers a b (node @ ''/chain'')) (Nodes genesis_node) =
      map (\<lambda>r. Response 200 (Some r)) [a, b]" for a b
    by (simp add: genesis_node_eq two_peers_def)
  have len: "(of_nat (length (Chain genesis_node)) :: go_int) = 1"
    by (simp add: genesis_node_eq)
  have less: "(2 :: go_int) <s 3" "\<not> (1 :: go_int) <s 1" "\<not> (2 :: go_int) <s 1"
    by (simp_all add: word_sless_alt)
  note facts = len less spec_resolve_def validChain_single validChain_empty
    peer_block_pair_invalid
  let ?broken = "\<lparr>PeerChain = [peer_block, peer_block], Length = 2\<rparr>"
  from resolveConflicts_adopts [of "two_peers ?broken \<lparr>PeerChain = [peer_block], Length = 3\<rparr>"
      genesis_node, THEN conjunct1, rule_format, OF decoded]
  have adopt: "resolveConflicts (two_peers ?broken \<lparr>PeerChain = [peer_block], Length = 3\<rparr>)
      genesis_node = (Inr True, genesis_node\<lparr>Chain := [peer_block]\<rparr>)"
    by (simp add: facts)
  from resolveConflicts_adopts [of "two_peers ?broken \<lparr>PeerChain = [peer_block], Length = 1\<rparr>"
      genesis_node, THEN conjunct1, rule_format, OF decoded]
  have broken: "resolveConflicts (two_peers ?broken \<lparr>PeerChain = [peer_block], Length = 1\<rparr>)
      genesis_node = (Inr False, genesis_node)"
    by (simp add: facts)
  from resolveConflicts_adopts [of "two_peers \<lparr>PeerChain = [], Length = 1\<rparr>
      \<lparr>PeerChain = [peer_block], Length = 1\<rparr>" genesis_node, THEN conjunct1, rule_format,
      OF decoded]
  have tie: "resolveConflicts (two_peers \<lparr>PeerChain = [], Length = 1\<rparr>
      \<lparr>PeerChain = [peer_block], Length = 1\<rparr>) genesis_node = (Inr False, genesis_node)"
    by (simp add: facts)
  from resolveConflicts_adopts [of "two_peers \<lparr>PeerChain = [], Length = 2\<rparr>
      \<lparr>PeerChain = [peer_block], Length = 3\<rparr>" genesis_node, THEN conjunct1, rule_format, OF decoded]
  have abort: "resolveConflicts (two_peers \<lparr>PeerChain = [], Length = 2\<rparr>
      \<lparr>PeerChain = [peer_block], Length = 3\<rparr>) genesis_node = (Inl IndexOutOfRange, genesis_node)"
    by (simp add: facts)
  have "\<not> (\<exists>responses. map (\<lambda>node. (\<lambda>url. GetFailed) (node @ ''/chain''))
      (Nodes genesis_node) = map (\<lambda>r. Response 200 (Some r)) responses)"
    by (auto simp: genesis_node_eq)
  with resolveConflicts_adopts [of "\<lambda>url. GetFailed" genesis_node, THEN conjunct2]
  have failed: "\<exists>e. resolveConflicts (\<lambda>url. GetFailed) genesis_node = (Inl e, genesis_node)"
    by blast
  from adopt broken tie abort failed show ?thesis
    by blast
qed

text \<open>
  The claim as it was stated fails where \<^verbatim>\<open>resolveConflicts\<close> panics: the first peer
  reports length 2 and a valid chain, the second length 3 and an empty chain; the ledger is
  left as it was and there is no answer. The same happens when the second peer cannot be
  reached.
\<close>

theorem adopted_peer_then_abort:
  "validChain [peer_block] = Inr True
   \<and> (of_nat (length (Chain genesis_node)) :: go_int) <s 2
   \<and> resolveConflicts
         (two_peers \<lparr>PeerChain = [peer_block], Length = 2\<rparr> \<lparr>PeerChain = [], Length = 3\<rparr>)
         genesis_node = (Inl IndexOutOfRange, genesis_node)
   \<and> resolveConflicts
         (\<lambda>url. if url = ''http://a/chain''
                then Response 200 (Some \<lparr>PeerChain = [peer_block], Length = 2\<rparr>)
                else GetFailed)
         genesis_node = (Inl GetError, genesis_node)"
  by (simp add: genesis_node_eq two_peers_def resolveConflicts_def validChain_single validChain_empty Let_def)

section \<open>The reported length is trusted\<close>

text \<open>
  Claim C9. The comparison reads the length the peer reports, not the number of blocks it
  sends: a ledger of two blocks (genesis and one mined block, a valid chain) whose only peer
  reports length 3 and sends a valid chain of one block answers true, and its chain is then
  that one block, shorter than before.
\<close>

theorem reported_length_shortens:
  "fst (resolveConflicts
         (\<lambda>url. Response 200 (Some \<lparr>PeerChain =
             [\<lparr>Index = 1, Timestamp = 7, Transactions = Transaction_zero, Proof = 100,
               PreviousHash = ''1''\<rparr>], Length = 3\<rparr>))
         ((snd (NewBlock 60 [] 35293 (snd (init 0))))\<lparr>Nodes := [''http://peer'']\<rparr>)) = Inr True
   \<and> Chain (snd (resolveConflicts
         (\<lambda>url. Response 200 (Some \<lparr>PeerChain =
             [\<lparr>Index = 1, Timestamp = 7, Transactions = Transaction_zero, Proof = 100,
               PreviousHash = ''1''\<rparr>], Length = 3\<rparr>))
         ((snd (NewBlock 60 [] 35293 (snd (init 0))))\<lparr>Nodes := [''http://peer'']\<rparr>))) =
       [\<lparr>Index = 1, Timestamp = 7, Transactions = Transaction_zero, Proof = 100,
         PreviousHash = ''1''\<rparr>]
   \<and> length (Chain ((snd (NewBlock 60 [] 35293 (snd (init 0))))\<lparr>Nodes := [''http://peer'']\<rparr>)) = 2
   \<and> validChain (Chain ((snd (NewBlock 60 [] 35293 (snd (init 0))))\<lparr>Nodes := [''http://peer'']\<rparr>))
       = Inr True
   \<and> validChain [\<lparr>Index = 1, Timestamp = 7, Transactions = Transaction_zero, Proof = 100,
         PreviousHash = ''1''\<rparr>] = Inr True
   \<and> (of_nat (length (Chain ((snd (NewBlock 60 [] 35293 (snd (init 0))))
           \<lparr>Nodes := [''http://peer'']\<rparr>))) :: go_int) <s 3"
proof -
  let ?g = "\<lparr>Index = 1, Timestamp = 0, Transactions = Transaction_zero, Proof = 100,
             PreviousHash = ''1''\<rparr>"
  obtain pg where pg: "Hash ?g = Inr pg"
    using Hash_total by blast
  have mined: "snd (NewBlock 60 [] 35293 (snd (init 0))) =
      \<lparr>Chain = [?g, \<lparr>Index = 2, Timestamp = 60, Transactions = Transaction_zero, Proof = 35293,
                       PreviousHash = pg\<rparr>],
       CurrentTransaction = Transaction_zero, Nodes = []\<rparr>"
    using NewBlock_result [of "snd (init 0)" "[]" 60 35293] pg
    by (simp add: init_ledger)
  show ?thesis
    by (simp add: mined resolveConflicts_def validChain_links pg nth_Cons')
qed

section \<open>The empty chain\<close>

text \<open>
  Claim C10, amended. \<^verbatim>\<open>validChain\<close> reads element 0 of the chain it is given, so on the
  empty chain it panics with an index out of range. A peer response that carries an empty
  chain and a reported length greater than the running best length makes
  \<^verbatim>\<open>resolveConflicts\<close> panic, and the ledger is left as it was; the running best is below
  the reported length when that is greater than the local chain's length and than the
  length every earlier peer reports.
\<close>

theorem empty_chain_aborts:
  assumes "Nodes local = before @ node # after"
    and "http_Get (node @ ''/chain'') = Response 200 (Some \<lparr>PeerChain = [], Length = reported\<rparr>)"
    and "of_nat (length (Chain local)) <s reported"
    and "\<forall>n \<in> set before. \<exists>r. http_Get (n @ ''/chain'') = Response 200 (Some r)
            \<and> Length r <s reported"
  shows "validChain [] = Inl IndexOutOfRange
         \<and> resolveConflicts http_Get local = (Inl IndexOutOfRange, local)
         \<and> (\<forall>maxLength newChain rest. maxLength <s reported \<longrightarrow>
               resolve_loop (Response 200 (Some \<lparr>PeerChain = [], Length = reported\<rparr>) # rest)
                 maxLength newChain = Inl IndexOutOfRange)"
proof -
  let ?get = "\<lambda>node. http_Get (node @ ''/chain'')"
  let ?n = "of_nat (length (Chain local)) :: go_int"
  let ?empty = "Response 200 (Some \<lparr>PeerChain = [], Length = reported\<rparr>)"
  have replies: "map ?get (Nodes local) = map ?get before @ (?empty # map ?get after)"
    using assms(1,2) by simp
  have ok: "\<forall>reply \<in> set (map ?get before). \<exists>r. reply = Response 200 (Some r)"
    using assms(4) by auto
  have below: "\<forall>reply \<in> set (map ?get before). \<exists>r. reply = Response 200 (Some r)
      \<and> Length r <s reported"
    using assms(4) by auto
  have "resolve_loop (map ?get (Nodes local)) ?n [] = Inl IndexOutOfRange"
  proof (cases "resolve_loop (map ?get before) ?n []")
    case (Inl e)
    with resolve_loop_error [OF Inl ok] show ?thesis
      by (simp add: replies resolve_loop_append)
  next
    case (Inr best)
    obtain maxLength newChain where best: "best = (maxLength, newChain)"
      by (cases best)
    from resolve_loop_bound [OF Inr [unfolded best] assms(3) below]
    have "maxLength <s reported" .
    from resolve_loop_empty_chain [OF this] Inr best show ?thesis
      by (simp add: replies resolve_loop_append)
  qed
  then have "resolveConflicts http_Get local = (Inl IndexOutOfRange, local)"
    by (simp add: resolveConflicts_def)
  then show ?thesis
    using resolve_loop_empty_chain by (simp add: validChain_def)
qed

text \<open>The first peer reports length 1, the second length 2 and an empty chain.\<close>

theorem empty_chain_aborts_witness:
  "Nodes genesis_node = [''http://a''] @ ''http://b'' # []
   \<and> two_peers \<lparr>PeerChain = [peer_block], Length = 1\<rparr> \<lparr>PeerChain = [], Length = 2\<rparr>
         (''http://b'' @ ''/chain'') = Response 200 (Some \<lparr>PeerChain = [], Length = 2\<rparr>)
   \<and> (of_nat (length (Chain genesis_node)) :: go_int) <s 2
   \<and> resolveConflicts
         (two_peers \<lparr>PeerChain = [peer_block], Length = 1\<rparr> \<lparr>PeerChain = [], Length = 2\<rparr>)
         genesis_node = (Inl IndexOutOfRange, genesis_node)"
proof -
  let ?net = "two_peers \<lparr>PeerChain = [peer_block], Length = 1\<rparr> \<lparr>PeerChain = [], Length = 2\<rparr>"
  have nodes: "Nodes genesis_node = [''http://a''] @ ''http://b'' # []"
    by (simp add: genesis_node_eq)
  have b: "?net (''http://b'' @ ''/chain'') = Response 200 (Some \<lparr>PeerChain = [], Length = 2\<rparr>)"
    by (simp add: two_peers_def)
  have len: "(of_nat (length (Chain genesis_node)) :: go_int) <s 2"
    by (simp add: genesis_node_eq)
  have a: "\<forall>n \<in> set [''http://a'']. \<exists>r. ?net (n @ ''/chain'') = Response 200 (Some r)
      \<and> Length r <s 2"
    by (simp add: two_peers_def)
  from empty_chain_aborts [OF nodes b len a] nodes b len show ?thesis
    by blast
qed

text \<open>
  The claim as it was stated fails after a longer peer: the first peer reports length 3
  and a valid chain, the second an empty chain and length 2, which is greater than the local
  length 1; the empty chain is never examined and the answer is true.
\<close>

theorem empty_chain_after_longer_peer:
  "Nodes genesis_node = [''http://a'', ''http://b'']
   \<and> two_peers \<lparr>PeerChain = [peer_block], Length = 3\<rparr> \<lparr>PeerChain = [], Length = 2\<rparr>
         ''http://b/chain'' = Response 200 (Some \<lparr>PeerChain = [], Length = 2\<rparr>)
   \<and> (of_nat (length (Chain genesis_node)) :: go_int) <s 2
   \<and> resolveConflicts
         (two_peers \<lparr>PeerChain = [peer_block], Length = 3\<rparr> \<lparr>PeerChain = [], Length = 2\<rparr>)
         genesis_node = (Inr True, genesis_node\<lparr>Chain := [peer_block]\<rparr>)"
  by (simp add: genesis_node_eq two_peers_def resolveConflicts_def validChain_single validChain_empty Let_def)

end
